theory Spec2Isabelle
  imports Main "HOL-Library.Extended_Nat" "HOL-Library.Multiset"
begin

section \<open>Records, properties and index states\<close>

text \<open>
  The engine of \<^verbatim>\<open>foam/dao/MDAO.java\<close> stores records (\<^verbatim>\<open>FObject\<close>) and reads their
  properties through \<^verbatim>\<open>PropertyInfo.get\<close>. The class \<^verbatim>\<open>PropertyInfo\<close> is missing from the
  sources, so the accessor is a parameter \<open>G\<close> of every operation that reads a property:
  \<open>G prop obj\<close> is the value of property \<open>prop\<close> of \<open>obj\<close>. A property is named by the
  name of its axiom; property values and keys are integers. The record type \<open>'r\<close> is
  left open: it is a record value in most of the development and a reference into an
  object store where the identity of records matters.
\<close>

type_synonym property_info = string

type_synonym 'r getter = "property_info \<Rightarrow> 'r \<Rightarrow> int"

text \<open>A concrete record type for the examples: a list of named fields, an absent field
  reading as \<open>0\<close>.\<close>

type_synonym fobject = "(string \<times> int) list"

definition get :: "fobject getter" where
  "get prop obj = (case map_of obj prop of Some v \<Rightarrow> v | None \<Rightarrow> 0)"

text \<open>Modelled from the spec: \<^verbatim>\<open>AbstractDAO.getPrimaryKey\<close> is missing from the sources. It
  is the designated primary-key property of the records; the constructor of \<^verbatim>\<open>MDAO\<close>
  builds the root index on the axiom named \<^verbatim>\<open>id\<close>, and the specification calls that index
  the primary-key index.\<close>

definition primaryKey :: property_info where
  "primaryKey = ''id''"

text \<open>A Java \<^verbatim>\<open>Object\<close> handed to \<^verbatim>\<open>find_\<close>: an instance of the class the DAO is \<^verbatim>\<open>of\<close>,
  or a raw key. \<^verbatim>\<open>null\<close> is \<open>None\<close> of the option type.\<close>

datatype 'r object = Instance 'r | RawKey int

text \<open>Modelled from the spec: the index classes of \<^verbatim>\<open>foam.dao.index\<close> are missing from the
  sources. The variants of the index capability under an \<^verbatim>\<open>AltIndex\<close>: the leaf that holds
  one record (\<^verbatim>\<open>ValueIndex\<close>), and the tree keyed by one property whose nodes hold a tail
  index (\<^verbatim>\<open>TreeIndex\<close>).\<close>

datatype index = ValueIndex | TreeIndex property_info index

text \<open>Modelled from the spec: the state classes of the indexes are missing from the
  sources. The opaque state token (\<^verbatim>\<open>Object state_\<close>) is \<^verbatim>\<open>null\<close>, the record of a leaf, the
  nodes of a tree in key order, each with the state of its tail, or the array of an
  \<^verbatim>\<open>AltIndex\<close> with one slot per alternative. The balanced ordered map of a tree is
  modelled by its observable content, the list of its nodes in increasing key order.\<close>

datatype 'r istate = Null | Leaf 'r | Tree "(int \<times> 'r istate) list" | Slots "'r istate list"

section \<open>The index capability\<close>

text \<open>
  The classes \<^verbatim>\<open>TreeIndex\<close>, \<^verbatim>\<open>ValueIndex\<close> and \<^verbatim>\<open>AltIndex\<close> of \<^verbatim>\<open>foam.dao.index\<close> are used
  by \<^verbatim>\<open>MDAO.java\<close> and are missing from the sources. Every definition of this section
  is modelled from sections 4.1 to 4.3 of the specification.
\<close>

text \<open>Modelled from the spec: the nodes of a tree state (\<^verbatim>\<open>TreeIndex\<close> is missing from the
  sources); a state that is not a tree has none.\<close>

fun nodes :: "'r istate \<Rightarrow> (int \<times> 'r istate) list" where
  "nodes (Tree kts) = kts"
| "nodes Null = []"
| "nodes (Leaf r) = []"
| "nodes (Slots ss) = []"

text \<open>Modelled from the spec: the state of a tree with the given nodes (\<^verbatim>\<open>TreeIndex\<close> is
  missing from the sources); the tree without nodes is the empty state \<^verbatim>\<open>null\<close>.\<close>

definition tree :: "(int \<times> 'r istate) list \<Rightarrow> 'r istate" where
  "tree kts = (case kts of [] \<Rightarrow> Null | x # xs \<Rightarrow> Tree kts)"

text \<open>Modelled from the spec: a step of \<^verbatim>\<open>TreeIndex.put\<close> and \<^verbatim>\<open>TreeIndex.remove\<close> (missing
  from the sources). \<open>attach k t kts\<close> puts the tail state \<open>t\<close> in front of \<open>kts\<close> under key
  \<open>k\<close>; a node whose tail became empty is deleted.\<close>

definition attach :: "int \<Rightarrow> 'r istate \<Rightarrow> (int \<times> 'r istate) list \<Rightarrow> (int \<times> 'r istate) list" where
  "attach k t kts = (case t of Null \<Rightarrow> kts | Leaf r \<Rightarrow> (k, t) # kts
     | Tree ns \<Rightarrow> (k, t) # kts | Slots ss \<Rightarrow> (k, t) # kts)"

text \<open>Modelled from the spec: the descent of \<^verbatim>\<open>TreeIndex.put\<close> and \<^verbatim>\<open>TreeIndex.remove\<close>
  (missing from the sources). \<open>modify k f kts\<close> locates the node for key \<open>k\<close> (an absent
  node has the empty tail \<open>Null\<close>) and delegates into its tail with \<open>f\<close>.\<close>

fun modify :: "int \<Rightarrow> ('r istate \<Rightarrow> 'r istate) \<Rightarrow> (int \<times> 'r istate) list
    \<Rightarrow> (int \<times> 'r istate) list" where
  "modify k f [] = attach k (f Null) []"
| "modify k f ((k', t) # kts) =
     (if k < k' then attach k (f Null) ((k', t) # kts)
      else if k = k' then attach k (f t) kts
      else (k', t) # modify k f kts)"

text \<open>Modelled from the spec: \<^verbatim>\<open>Index.put(state, record)\<close> of \<^verbatim>\<open>ValueIndex\<close> and
  \<^verbatim>\<open>TreeIndex\<close> (missing from the sources). A tree locates or creates the node for the
  record's key and delegates into the tail index; the leaf holds the record.\<close>

fun index_put :: "'r getter \<Rightarrow> index \<Rightarrow> 'r istate \<Rightarrow> 'r \<Rightarrow> 'r istate" where
  "index_put G ValueIndex s r = Leaf r"
| "index_put G (TreeIndex p tail) s r =
     tree (modify (G p r) (\<lambda>t. index_put G tail t r) (nodes s))"

text \<open>Modelled from the spec: \<^verbatim>\<open>Index.remove(state, record)\<close> of \<^verbatim>\<open>ValueIndex\<close> and
  \<^verbatim>\<open>TreeIndex\<close> (missing from the sources). A tree delegates into the tail of the node for
  the record's key and deletes the node if the tail becomes empty.\<close>

fun index_remove :: "'r getter \<Rightarrow> index \<Rightarrow> 'r istate \<Rightarrow> 'r \<Rightarrow> 'r istate" where
  "index_remove G ValueIndex s r = Null"
| "index_remove G (TreeIndex p tail) s r =
     tree (modify (G p r) (\<lambda>t. index_remove G tail t r) (nodes s))"

text \<open>Modelled from the spec: the search of \<^verbatim>\<open>TreeIndex.find\<close> through the nodes of a tree
  (missing from the sources): the first result that is not absent.\<close>

fun first_some :: "('a \<Rightarrow> 'b option) \<Rightarrow> 'a list \<Rightarrow> 'b option" where
  "first_some f [] = None"
| "first_some f (x # xs) = (case f x of Some y \<Rightarrow> Some y | None \<Rightarrow> first_some f xs)"

text \<open>Modelled from the spec: \<^verbatim>\<open>Index.find(state, key)\<close> of \<^verbatim>\<open>ValueIndex\<close> and \<^verbatim>\<open>TreeIndex\<close>
  (missing from the sources), the lookup of a record by its primary key. A tree keyed by
  the primary key goes to the node of the key; a tree keyed by another property asks the
  tail of every node in turn.\<close>

fun index_find :: "index \<Rightarrow> 'r istate \<Rightarrow> int \<Rightarrow> 'r option" where
  "index_find ValueIndex s key = (case s of Leaf r \<Rightarrow> Some r | _ \<Rightarrow> None)"
| "index_find (TreeIndex p tail) s key =
     (if p = primaryKey
      then (case map_of (nodes s) key of None \<Rightarrow> None | Some t \<Rightarrow> index_find tail t key)
      else first_some (\<lambda>kt. index_find tail (snd kt) key) (nodes s))"

text \<open>Modelled from the spec: the full scan of a tree (\<^verbatim>\<open>TreeIndex\<close> is missing from the
  sources), the records a state holds in key order.\<close>

fun records :: "'r istate \<Rightarrow> 'r list" where
  "records Null = []"
| "records (Leaf r) = [r]"
| "records (Tree kts) = concat (map (\<lambda>kt. records (snd kt)) kts)"
| "records (Slots ss) = []"

text \<open>Modelled from the spec: the constructor \<^verbatim>\<open>new TreeIndex(prop)\<close> (missing from the
  sources). The tail of a tree defaults to the primary-key index, which ends in the
  leaf; the class comment of \<^verbatim>\<open>MDAO.java\<close> draws the two chains \<^verbatim>\<open>TreeIndex(id)\<close> and
  \<^verbatim>\<open>TreeIndex(propA) -> TreeIndex(id) -> ValueIndex\<close>.\<close>

definition new_TreeIndex :: "property_info \<Rightarrow> index" where
  "new_TreeIndex prop =
     (if prop = primaryKey then TreeIndex primaryKey ValueIndex
      else TreeIndex prop (TreeIndex primaryKey ValueIndex))"

subsection \<open>Find plans\<close>

text \<open>Modelled from the spec: the find plans (\<^verbatim>\<open>FindPlan\<close> and its classes are missing from
  the sources). A plan carries a cost estimate and an execution strategy: no plan, the
  lookup in an index, or the plan of the alternative in a slot of an \<^verbatim>\<open>AltIndex\<close>.\<close>

datatype find_plan = NoFindPlan | IndexFindPlan nat index | AltFindPlan nat find_plan

text \<open>Modelled from the spec: \<^verbatim>\<open>FindPlan.cost\<close> (missing from the sources).\<close>

fun find_cost :: "find_plan \<Rightarrow> nat option" where
  "find_cost NoFindPlan = None"
| "find_cost (IndexFindPlan c d) = Some c"
| "find_cost (AltFindPlan i p) = find_cost p"

text \<open>Modelled from the spec: \<^verbatim>\<open>Index.planFind(state, key)\<close> of \<^verbatim>\<open>ValueIndex\<close> and
  \<^verbatim>\<open>TreeIndex\<close> (missing from the sources). The specification gives no cost formula for a
  lookup; the estimate is one step for a tree keyed by the primary key and one step per
  node otherwise. No theorem below depends on the estimate: each holds for the plan of
  every alternative.\<close>

fun index_planFind :: "index \<Rightarrow> 'r istate \<Rightarrow> int \<Rightarrow> find_plan" where
  "index_planFind ValueIndex s key = IndexFindPlan 0 ValueIndex"
| "index_planFind (TreeIndex p tail) s key =
     IndexFindPlan (if p = primaryKey then 1 else 1 + length (nodes s)) (TreeIndex p tail)"

text \<open>Modelled from the spec: the choice of \<^verbatim>\<open>AltIndex.planFind\<close> and
  \<^verbatim>\<open>AltIndex.planSelect\<close> (missing from the sources), the position of the lowest cost, the
  first one among equal costs.\<close>

fun first_min :: "nat list \<Rightarrow> nat option" where
  "first_min [] = None"
| "first_min (c # cs) =
     (case first_min cs of None \<Rightarrow> Some 0
      | Some j \<Rightarrow> if c \<le> cs ! j then Some 0 else Some (Suc j))"

text \<open>Modelled from the spec: the state token of an \<^verbatim>\<open>AltIndex\<close> (missing from the sources)
  is array-shaped, one slot per alternative; \<^verbatim>\<open>null\<close> stands for the array of empty slots,
  and an alternative registered after the array was made has an empty slot (no
  backfill).\<close>

definition slot :: "'r istate \<Rightarrow> nat \<Rightarrow> 'r istate" where
  "slot st i = (case st of Slots ss \<Rightarrow> if i < length ss then ss ! i else Null | _ \<Rightarrow> Null)"

text \<open>Modelled from the spec: the slots of the alternatives of an \<^verbatim>\<open>AltIndex\<close> (missing from
  the sources), in registration order.\<close>

definition slot_states :: "index list \<Rightarrow> 'r istate \<Rightarrow> 'r istate list" where
  "slot_states ds st = map (slot st) [0..<length ds]"

text \<open>Modelled from the spec: \<^verbatim>\<open>AltIndex.addIndex\<close> (missing from the sources) registers
  an alternative after the ones registered before.\<close>

definition alt_addIndex :: "index list \<Rightarrow> index \<Rightarrow> index list" where
  "alt_addIndex ds d = ds @ [d]"

text \<open>Modelled from the spec: \<^verbatim>\<open>AltIndex.put\<close> (missing from the sources): a write fans out
  to the slot of every alternative.\<close>

definition alt_put :: "'r getter \<Rightarrow> index list \<Rightarrow> 'r istate \<Rightarrow> 'r \<Rightarrow> 'r istate" where
  "alt_put G ds st r = Slots (map (\<lambda>ds'. index_put G (fst ds') (snd ds') r) (zip ds (slot_states ds st)))"

text \<open>Modelled from the spec: \<^verbatim>\<open>AltIndex.remove\<close> (missing from the sources): a removal
  fans out to the slot of every alternative.\<close>

definition alt_remove :: "'r getter \<Rightarrow> index list \<Rightarrow> 'r istate \<Rightarrow> 'r \<Rightarrow> 'r istate" where
  "alt_remove G ds st r =
     Slots (map (\<lambda>ds'. index_remove G (fst ds') (snd ds') r) (zip ds (slot_states ds st)))"

text \<open>Modelled from the spec: \<^verbatim>\<open>AltIndex.planFind\<close> (missing from the sources) requests a
  candidate plan from every alternative and selects the one of lowest cost, the first
  registered among equals.\<close>

definition alt_planFind :: "index list \<Rightarrow> 'r istate \<Rightarrow> int \<Rightarrow> find_plan" where
  "alt_planFind ds st key =
     (let cands = map (\<lambda>ds'. index_planFind (fst ds') (snd ds') key) (zip ds (slot_states ds st))
      in case first_min (map (\<lambda>p. case find_cost p of Some c \<Rightarrow> c | None \<Rightarrow> 0) cands) of
           None \<Rightarrow> NoFindPlan
         | Some i \<Rightarrow> AltFindPlan i (cands ! i))"

text \<open>Modelled from the spec: \<^verbatim>\<open>FindPlan.find(state, key)\<close> (missing from the sources),
  the execution of a find plan. The plan of an \<^verbatim>\<open>AltIndex\<close> runs the chosen alternative's
  plan on its slot.\<close>

fun plan_find :: "find_plan \<Rightarrow> 'r istate \<Rightarrow> int \<Rightarrow> 'r option" where
  "plan_find NoFindPlan st key = None"
| "plan_find (IndexFindPlan c d) st key = index_find d st key"
| "plan_find (AltFindPlan i p) st key = plan_find p (slot st i) key"

section \<open>The engine facade: put, remove, find, removeAll\<close>

text \<open>The two fields of \<^verbatim>\<open>MDAO\<close>: \<open>mdao_index\<close> is \<^verbatim>\<open>index_\<close>, the alternatives of the
  \<^verbatim>\<open>AltIndex\<close> in registration order, and \<open>mdao_state\<close> is \<^verbatim>\<open>state_\<close>, the state token
  (a name cannot end in an underscore here; the methods \<^verbatim>\<open>find_\<close>, \<^verbatim>\<open>put_\<close>, \<^verbatim>\<open>remove_\<close>,
  \<^verbatim>\<open>select_\<close> and \<^verbatim>\<open>removeAll_\<close> are \<open>mdao_find\<close>, \<open>mdao_put\<close>, \<open>mdao_remove\<close>,
  \<open>mdao_select\<close> and \<open>mdao_removeAll\<close>).\<close>

record 'r mdao =
  mdao_index :: "index list"
  mdao_state :: "'r istate"

text \<open>\<^verbatim>\<open>MDAO(ClassInfo of)\<close>, lines 49 to 53.\<close>

definition new_MDAO :: "'r mdao" where
  "new_MDAO = \<lparr>mdao_index = [new_TreeIndex ''id''], mdao_state = Null\<rparr>"

text \<open>\<^verbatim>\<open>addIndex(PropertyInfo prop)\<close> and \<^verbatim>\<open>addIndex(Index index)\<close>, lines 55 to 59.\<close>

definition addIndex :: "property_info \<Rightarrow> 'r mdao \<Rightarrow> 'r mdao" where
  "addIndex prop m = m\<lparr>mdao_index := alt_addIndex (mdao_index m) (new_TreeIndex prop)\<rparr>"

definition addIndex_index :: "index \<Rightarrow> 'r mdao \<Rightarrow> 'r mdao" where
  "addIndex_index d m = m\<lparr>mdao_index := alt_addIndex (mdao_index m) d\<rparr>"

text \<open>Modelled from the spec: \<^verbatim>\<open>AbstractFObject.maybeClone\<close> is missing from the sources; it
  yields an independent copy of a record, and \<^verbatim>\<open>null\<close> for \<^verbatim>\<open>null\<close>. Where records are values,
  the copy of a record is the record; the copy as a new object is \<open>maybeClone_store\<close>.\<close>

definition maybeClone :: "'r option \<Rightarrow> 'r option" where
  "maybeClone fo = (case fo of None \<Rightarrow> None | Some x \<Rightarrow> Some x)"

text \<open>The argument of \<^verbatim>\<open>maybeClone\<close> in \<^verbatim>\<open>find_\<close>, lines 86 to 88: the lookup by the primary
  key of an instance, or by the raw key.\<close>

definition lookup :: "'r getter \<Rightarrow> 'r mdao \<Rightarrow> 'r object \<Rightarrow> 'r option" where
  "lookup G m ob =
     (case ob of
        Instance x \<Rightarrow>
          plan_find (alt_planFind (mdao_index m) (mdao_state m) (G primaryKey x)) (mdao_state m) (G primaryKey x)
      | RawKey k \<Rightarrow> plan_find (alt_planFind (mdao_index m) (mdao_state m) k) (mdao_state m) k)"

text \<open>\<^verbatim>\<open>find_(X x, Object o)\<close>, lines 81 to 90.\<close>

definition mdao_find :: "'r getter \<Rightarrow> 'r mdao \<Rightarrow> 'r object option \<Rightarrow> 'r option" where
  "mdao_find G m ob = (case ob of None \<Rightarrow> None | Some x \<Rightarrow> maybeClone (lookup G m x))"

text \<open>\<^verbatim>\<open>put_(X x, FObject obj)\<close>, lines 61 to 68, for a record \<open>obj\<close>: a \<^verbatim>\<open>null\<close> argument
  reaches \<^verbatim>\<open>index_.put\<close>, whose behaviour on \<^verbatim>\<open>null\<close> the sources do not decide. The result is
  the returned record and the engine after the call.\<close>

definition mdao_put :: "'r getter \<Rightarrow> 'r mdao \<Rightarrow> 'r \<Rightarrow> 'r \<times> 'r mdao" where
  "mdao_put G m obj =
     (let oldValue = mdao_find G m (Some (Instance obj));
          m1 = (case oldValue of
                  Some old \<Rightarrow> m\<lparr>mdao_state := alt_remove G (mdao_index m) (mdao_state m) old\<rparr>
                | None \<Rightarrow> m);
          m2 = m1\<lparr>mdao_state := alt_put G (mdao_index m1) (mdao_state m1) obj\<rparr>
      in (obj, m2))"

text \<open>\<^verbatim>\<open>remove_(X x, FObject obj)\<close>, lines 70 to 79. The result is the returned record and
  the engine after the call.\<close>

definition mdao_remove :: "'r getter \<Rightarrow> 'r mdao \<Rightarrow> 'r option \<Rightarrow> 'r option \<times> 'r mdao" where
  "mdao_remove G m obj =
     (case obj of
        None \<Rightarrow> (None, m)
      | Some x \<Rightarrow>
          (let found = mdao_find G m (Some (Instance x))
           in case found of
                Some f \<Rightarrow> (found, m\<lparr>mdao_state := alt_remove G (mdao_index m) (mdao_state m) f\<rparr>)
              | None \<Rightarrow> (found, m)))"


section \<open>Predicates, orders and sinks\<close>

text \<open>Modelled from the spec: the predicate classes of \<^verbatim>\<open>foam.mlang.predicate\<close> are missing
  from the sources. A predicate is a tree of boolean nodes over record properties:
  equality, range, negation, conjunction, disjunction.\<close>

datatype predicate =
    Eq property_info int
  | Lt property_info int
  | Gt property_info int
  | Not predicate
  | And "predicate list"
  | Or "predicate list"

text \<open>Modelled from the spec: \<^verbatim>\<open>Predicate.f\<close> (missing from the sources), the truth value of
  a predicate on a record.\<close>

fun holds :: "'r getter \<Rightarrow> predicate \<Rightarrow> 'r \<Rightarrow> bool" where
  "holds G (Eq p v) r = (G p r = v)"
| "holds G (Lt p v) r = (G p r < v)"
| "holds G (Gt p v) r = (G p r > v)"
| "holds G (Not q) r = (\<not> holds G q r)"
| "holds G (And qs) r = list_all (\<lambda>q. holds G q r) qs"
| "holds G (Or qs) r = list_ex (\<lambda>q. holds G q r) qs"

text \<open>Modelled from the spec: the filter of a plan (the plan classes are missing from the
  sources); a \<^verbatim>\<open>null\<close> predicate selects every record.\<close>

definition holds_opt :: "'r getter \<Rightarrow> predicate option \<Rightarrow> 'r \<Rightarrow> bool" where
  "holds_opt G po r = (case po of None \<Rightarrow> True | Some q \<Rightarrow> holds G q r)"

text \<open>Modelled from the spec: the flattening step of \<^verbatim>\<open>Predicate.partialEval\<close> (missing from
  the sources): the terms a predicate contributes to a conjunction around it.\<close>

fun conjuncts :: "predicate \<Rightarrow> predicate list" where
  "conjuncts (And qs) = qs"
| "conjuncts (Eq p v) = [Eq p v]"
| "conjuncts (Lt p v) = [Lt p v]"
| "conjuncts (Gt p v) = [Gt p v]"
| "conjuncts (Not q) = [Not q]"
| "conjuncts (Or qs) = [Or qs]"

text \<open>Modelled from the spec: \<^verbatim>\<open>Predicate.partialEval\<close> (missing from the sources) removes
  redundant nesting. The comment at line 95 of \<^verbatim>\<open>MDAO.java\<close> names the two rewrites: a
  conjunction of one term collapses to that term, and nested conjunctions flatten. The
  arguments of the other nodes are simplified in place.\<close>

fun partialEval :: "predicate \<Rightarrow> predicate" where
  "partialEval (And qs) =
     (case concat (map (\<lambda>q. conjuncts (partialEval q)) qs) of
        [q] \<Rightarrow> q
      | qs' \<Rightarrow> And qs')"
| "partialEval (Or qs) = Or (map partialEval qs)"
| "partialEval (Not q) = Not (partialEval q)"
| "partialEval (Eq p v) = Eq p v"
| "partialEval (Lt p v) = Lt p v"
| "partialEval (Gt p v) = Gt p v"

text \<open>Modelled from the spec: the comparator classes of \<^verbatim>\<open>foam.mlang.order\<close> are missing
  from the sources. A comparator orders records by one property, ascending or
  descending.\<close>

datatype comparator = Asc property_info | Desc property_info

text \<open>Modelled from the spec: the final ordering of a plan (the plan classes are missing from
  the sources), a stable sort; \<^verbatim>\<open>null\<close> leaves the records as they are.\<close>

definition apply_order :: "'r getter \<Rightarrow> comparator option \<Rightarrow> 'r list \<Rightarrow> 'r list" where
  "apply_order G order xs =
     (case order of
        None \<Rightarrow> xs
      | Some (Asc p) \<Rightarrow> sort_key (G p) xs
      | Some (Desc p) \<Rightarrow> sort_key (\<lambda>r. - G p r) xs)"

text \<open>Modelled from the spec: \<^verbatim>\<open>AbstractDAO.MAX_SAFE_INTEGER\<close> is missing from the sources; the
  specification calls a request with this limit unbounded. The \<^verbatim>\<open>long\<close> parameters \<^verbatim>\<open>skip\<close>
  and \<^verbatim>\<open>limit\<close> are a count of records, and a count or no bound.\<close>

definition MAX_SAFE_INTEGER :: enat where
  "MAX_SAFE_INTEGER = \<infinity>"

text \<open>Modelled from the spec: the limit of a plan (the plan classes are missing from the
  sources): at most \<open>limit\<close> records are delivered.\<close>

definition take_limit :: "enat \<Rightarrow> 'a list \<Rightarrow> 'a list" where
  "take_limit limit xs = (case limit of enat n \<Rightarrow> take n xs | \<infinity> \<Rightarrow> xs)"

text \<open>Modelled from the spec: the sink classes (\<^verbatim>\<open>Sink\<close>, \<^verbatim>\<open>ArraySink\<close>) are missing from the
  sources. A sink is a streaming consumer of records; it is modelled by the records it
  has received so far, and \<^verbatim>\<open>new ArraySink()\<close> is the empty list.\<close>

type_synonym 'r sink = "'r list"

section \<open>Select plans\<close>

text \<open>
  The plan classes (\<^verbatim>\<open>SelectPlan\<close>, \<^verbatim>\<open>OrPlan\<close>) and the planning methods of the indexes are
  missing from the sources. Every definition of this section is modelled from the
  specification. Section 4.2: for an equality or range predicate on the indexed property
  a tree produces a scan of the key range, with a cost proportional to the number of
  records in the range; any other predicate yields a scan of the whole tree; an empty
  tree yields the empty plan of cost zero. Section 4.3: an \<^verbatim>\<open>AltIndex\<close> takes a candidate
  from every alternative and selects the lowest cost, the first registered among equals.
  Section 4.5: an \<^verbatim>\<open>OrPlan\<close> runs one sub-plan per disjunct into an unbounded buffer and
  applies order, skip and limit to the buffer.
\<close>

text \<open>Modelled from the spec: the key range of a scan plan of \<^verbatim>\<open>TreeIndex\<close> (missing from the
  sources): all keys, one key, the keys below or the keys above a value.\<close>

datatype key_range = AllKeys | KeyEq int | KeyLt int | KeyGt int

text \<open>Modelled from the spec: the test of a key against the range of a scan (\<^verbatim>\<open>TreeIndex\<close> is
  missing from the sources).\<close>

fun in_range :: "key_range \<Rightarrow> int \<Rightarrow> bool" where
  "in_range AllKeys k = True"
| "in_range (KeyEq v) k = (k = v)"
| "in_range (KeyLt v) k = (k < v)"
| "in_range (KeyGt v) k = (k > v)"

text \<open>Modelled from the spec: the range that \<^verbatim>\<open>TreeIndex.planSelect\<close> (missing from the
  sources) scans for a predicate: the range of an equality or range predicate on the
  indexed property, and all keys for any other predicate.\<close>

fun range_of :: "property_info \<Rightarrow> predicate option \<Rightarrow> key_range" where
  "range_of p (Some (Eq q v)) = (if q = p then KeyEq v else AllKeys)"
| "range_of p (Some (Lt q v)) = (if q = p then KeyLt v else AllKeys)"
| "range_of p (Some (Gt q v)) = (if q = p then KeyGt v else AllKeys)"
| "range_of p (Some (Not q)) = AllKeys"
| "range_of p (Some (And qs)) = AllKeys"
| "range_of p (Some (Or qs)) = AllKeys"
| "range_of p None = AllKeys"

text \<open>Modelled from the spec: the range scan of a tree (\<^verbatim>\<open>TreeIndex\<close> is missing from the
  sources), the records of the nodes whose key lies in the range, in key order.\<close>

fun scan :: "'r istate \<Rightarrow> key_range \<Rightarrow> 'r list" where
  "scan (Tree kts) rg = concat (map (\<lambda>kt. records (snd kt)) (filter (\<lambda>kt. in_range rg (fst kt)) kts))"
| "scan Null rg = []"
| "scan (Leaf r) rg = [r]"
| "scan (Slots ss) rg = []"

text \<open>Modelled from the spec: the select plans (\<^verbatim>\<open>SelectPlan\<close>, \<^verbatim>\<open>OrPlan\<close> and the plans of
  the indexes are missing from the sources): the empty plan, the scan of a key range
  with its cost, the plan of the alternative in a slot of an \<^verbatim>\<open>AltIndex\<close>, and the
  \<^verbatim>\<open>OrPlan\<close> of a disjunction with one sub-plan per disjunct.\<close>

datatype plan = EmptyPlan | ScanPlan nat key_range | AltPlan nat plan | OrPlan predicate "plan list"

text \<open>Modelled from the spec: \<^verbatim>\<open>Plan.cost\<close> (missing from the sources).\<close>

fun plan_cost :: "plan \<Rightarrow> nat" where
  "plan_cost EmptyPlan = 0"
| "plan_cost (ScanPlan c rg) = c"
| "plan_cost (AltPlan i p) = plan_cost p"
| "plan_cost (OrPlan q ps) = sum_list (map plan_cost ps)"

text \<open>Modelled from the spec: \<^verbatim>\<open>Index.planSelect\<close> of \<^verbatim>\<open>ValueIndex\<close> and \<^verbatim>\<open>TreeIndex\<close> (missing
  from the sources). An empty tree yields the empty plan; otherwise the plan scans the
  range of the predicate, at the cost of the number of records in the range.\<close>

fun index_planSelect :: "index \<Rightarrow> 'r istate \<Rightarrow> 'r sink \<Rightarrow> nat \<Rightarrow> enat \<Rightarrow> comparator option
    \<Rightarrow> predicate option \<Rightarrow> plan" where
  "index_planSelect ValueIndex s sink skip limit order predicate =
     (case s of Leaf r \<Rightarrow> ScanPlan 1 AllKeys | _ \<Rightarrow> EmptyPlan)"
| "index_planSelect (TreeIndex p tail) s sink skip limit order predicate =
     (case nodes s of
        [] \<Rightarrow> EmptyPlan
      | kt # kts \<Rightarrow> ScanPlan (length (scan s (range_of p predicate))) (range_of p predicate))"

text \<open>Modelled from the spec: \<^verbatim>\<open>AltIndex.planSelect\<close> (missing from the sources) requests a
  candidate plan from every alternative for the same arguments and selects the one of
  lowest cost, the first registered among equals.\<close>

definition alt_planSelect :: "index list \<Rightarrow> 'r istate \<Rightarrow> 'r sink \<Rightarrow> nat \<Rightarrow> enat
    \<Rightarrow> comparator option \<Rightarrow> predicate option \<Rightarrow> plan" where
  "alt_planSelect ds st sink skip limit order predicate =
     (let cands = map (\<lambda>ds'. index_planSelect (fst ds') (snd ds') sink skip limit order predicate)
                    (zip ds (slot_states ds st))
      in case first_min (map plan_cost cands) of
           None \<Rightarrow> EmptyPlan
         | Some i \<Rightarrow> AltPlan i (cands ! i))"

text \<open>Modelled from the spec: what a plan (the plan classes are missing from the sources)
  delivers from the records it scanned: the records that satisfy the predicate, ordered,
  without the first \<open>skip\<close>, at most \<open>limit\<close> of them.\<close>

definition deliver :: "'r getter \<Rightarrow> nat \<Rightarrow> enat \<Rightarrow> comparator option \<Rightarrow> predicate option
    \<Rightarrow> 'r list \<Rightarrow> 'r list" where
  "deliver G skip limit order predicate xs =
     take_limit limit (drop skip (apply_order G order (filter (holds_opt G predicate) xs)))"

text \<open>Modelled from the spec: \<^verbatim>\<open>Or.getArgs\<close> as \<^verbatim>\<open>OrPlan\<close> reads it from its predicate (both
  missing from the sources).\<close>

fun disjuncts :: "predicate \<Rightarrow> predicate list" where
  "disjuncts (Or qs) = qs"
| "disjuncts (Eq p v) = []"
| "disjuncts (Lt p v) = []"
| "disjuncts (Gt p v) = []"
| "disjuncts (Not q) = []"
| "disjuncts (And qs) = []"

text \<open>Modelled from the spec: \<^verbatim>\<open>Plan.select(state, sink, skip, limit, order, predicate)\<close> of
  the plan classes (missing from the sources). \<open>or_buffer\<close> is the intermediate buffer of
  an \<^verbatim>\<open>OrPlan\<close>: every sub-plan runs on its own disjunct with skip 0, no limit and no order,
  one after the other; order, skip and limit are applied to the buffer.\<close>

fun plan_select :: "'r getter \<Rightarrow> plan \<Rightarrow> 'r istate \<Rightarrow> 'r sink \<Rightarrow> nat \<Rightarrow> enat \<Rightarrow> comparator option
    \<Rightarrow> predicate option \<Rightarrow> 'r sink"
  and or_buffer :: "'r getter \<Rightarrow> plan list \<Rightarrow> predicate list \<Rightarrow> 'r istate \<Rightarrow> 'r list" where
  "plan_select G EmptyPlan st sink skip limit order predicate = sink"
| "plan_select G (ScanPlan c rg) st sink skip limit order predicate =
     sink @ deliver G skip limit order predicate (scan st rg)"
| "plan_select G (AltPlan i p) st sink skip limit order predicate =
     plan_select G p (slot st i) sink skip limit order predicate"
| "plan_select G (OrPlan q ps) st sink skip limit order predicate =
     sink @ deliver G skip limit order None (or_buffer G ps (disjuncts q) st)"
| "or_buffer G [] qs st = []"
| "or_buffer G (p # ps) [] st = []"
| "or_buffer G (p # ps) (q # qs) st =
     plan_select G p st [] 0 MAX_SAFE_INTEGER None (Some q) @ or_buffer G ps qs st"

section \<open>The engine facade: select and removeAll\<close>

text \<open>The planning method \<^verbatim>\<open>index_.planSelect(state, sink, skip, limit, order, predicate)\<close>
  belongs to the class \<^verbatim>\<open>AltIndex\<close>, which is missing from the sources: where \<^verbatim>\<open>select_\<close>
  builds its plan it is a parameter, so that the plan shows the arguments of every
  request whatever the method does with them.\<close>

type_synonym 'r planner =
  "'r istate \<Rightarrow> 'r sink \<Rightarrow> nat \<Rightarrow> enat \<Rightarrow> comparator option \<Rightarrow> predicate option \<Rightarrow> plan"

text \<open>The plan that \<^verbatim>\<open>select_\<close> builds, lines 93 to 112, with \<^verbatim>\<open>index_.planSelect\<close> as the
  parameter \<open>planSelect\<close> and \<^verbatim>\<open>state_\<close> as \<open>state\<close>: one sub-plan per argument of a top-level
  disjunction of the simplified predicate, each requested with the new \<^verbatim>\<open>dependSink\<close>,
  skip 0, \<^verbatim>\<open>MAX_SAFE_INTEGER\<close> and no order; otherwise the plan of the index for the
  caller's arguments.\<close>

definition select_plan :: "'r planner \<Rightarrow> 'r istate \<Rightarrow> 'r sink \<Rightarrow> nat \<Rightarrow> enat \<Rightarrow> comparator option
    \<Rightarrow> predicate option \<Rightarrow> plan" where
  "select_plan planSelect state sink skip limit order predicate =
     (let simplePredicate = (case predicate of None \<Rightarrow> None | Some q \<Rightarrow> Some (partialEval q))
      in case simplePredicate of
           Some (Or args) \<Rightarrow>
             (let dependSink = []
              in OrPlan (Or args)
                   (map (\<lambda>arg. planSelect state dependSink 0 MAX_SAFE_INTEGER None (Some arg)) args))
         | _ \<Rightarrow> planSelect state sink skip limit order simplePredicate)"

text \<open>The execution method \<^verbatim>\<open>plan.select(state, sink, skip, limit, order, predicate)\<close> belongs
  to the plan classes, which are missing from the sources: in the body of \<^verbatim>\<open>select_\<close> it is
  a parameter as well.\<close>

type_synonym 'r executor =
  "plan \<Rightarrow> 'r istate \<Rightarrow> 'r sink \<Rightarrow> nat \<Rightarrow> enat \<Rightarrow> comparator option \<Rightarrow> predicate option \<Rightarrow> 'r sink"

text \<open>The body of \<^verbatim>\<open>select_\<close>, lines 92 to 115, with \<^verbatim>\<open>index_.planSelect\<close> as \<open>planSelect\<close>,
  \<^verbatim>\<open>plan.select\<close> as \<open>planExec\<close> and \<^verbatim>\<open>state_\<close> as \<open>state\<close>: the plan is built, it is executed
  with the caller's sink, skip, limit and order and the simplified predicate, and the
  sink is returned.\<close>

definition select_with :: "'r planner \<Rightarrow> 'r executor \<Rightarrow> 'r istate \<Rightarrow> 'r sink \<Rightarrow> nat \<Rightarrow> enat
    \<Rightarrow> comparator option \<Rightarrow> predicate option \<Rightarrow> 'r sink" where
  "select_with planSelect planExec state sink skip limit order predicate =
     (let simplePredicate = (case predicate of None \<Rightarrow> None | Some q \<Rightarrow> Some (partialEval q));
          plan = select_plan planSelect state sink skip limit order predicate
      in planExec plan state sink skip limit order simplePredicate)"

text \<open>\<^verbatim>\<open>select_(X x, Sink sink, long skip, long limit, Comparator order, Predicate predicate)\<close>,
  lines 92 to 115, of the engine: the planning method is that of the registered
  alternatives and the execution method is that of the plans.\<close>

definition mdao_select :: "'r getter \<Rightarrow> 'r mdao \<Rightarrow> 'r sink \<Rightarrow> nat \<Rightarrow> enat \<Rightarrow> comparator option
    \<Rightarrow> predicate option \<Rightarrow> 'r sink" where
  "mdao_select G m sink skip limit order predicate =
     select_with (alt_planSelect (mdao_index m)) (plan_select G) (mdao_state m)
       sink skip limit order predicate"

text \<open>\<^verbatim>\<open>removeAll_(X x, long skip, long limit, Comparator order, Predicate predicate)\<close>,
  lines 117 to 119.\<close>

definition mdao_removeAll :: "'r mdao \<Rightarrow> nat \<Rightarrow> enat \<Rightarrow> comparator option \<Rightarrow> predicate option
    \<Rightarrow> 'r mdao" where
  "mdao_removeAll m skip limit order predicate = m\<lparr>mdao_state := Null\<rparr>"


section \<open>Histories of operations\<close>

text \<open>The write operations of the facade, with their arguments.\<close>

datatype 'r operation =
    Put 'r
  | Remove "'r option"
  | RemoveAll nat enat "comparator option" "predicate option"

text \<open>The engine after one write operation, and after a history of them in order.\<close>

fun apply_op :: "'r getter \<Rightarrow> 'r mdao \<Rightarrow> 'r operation \<Rightarrow> 'r mdao" where
  "apply_op G m (Put r) = snd (mdao_put G m r)"
| "apply_op G m (Remove ro) = snd (mdao_remove G m ro)"
| "apply_op G m (RemoveAll skip limit order predicate) = mdao_removeAll m skip limit order predicate"

definition run :: "'r getter \<Rightarrow> 'r operation list \<Rightarrow> 'r mdao \<Rightarrow> 'r mdao" where
  "run G ops m = foldl (apply_op G) m ops"

text \<open>A newly built engine: the constructor, then \<^verbatim>\<open>addIndex(PropertyInfo)\<close> for each of the
  given properties in turn.\<close>

definition engine :: "property_info list \<Rightarrow> 'r mdao" where
  "engine props = foldl (\<lambda>m p. addIndex p m) new_MDAO props"

text \<open>The record a history leaves under a key, read off the history itself, the most
  recent operation first: the most recently put record with that primary key, and none
  if the key was never put or its record was removed afterwards.\<close>

fun last_write :: "'r getter \<Rightarrow> int \<Rightarrow> 'r operation list \<Rightarrow> 'r option" where
  "last_write G key [] = None"
| "last_write G key (Put r # earlier) =
     (if G primaryKey r = key then Some r else last_write G key earlier)"
| "last_write G key (Remove None # earlier) = last_write G key earlier"
| "last_write G key (Remove (Some r) # earlier) =
     (if G primaryKey r = key then None else last_write G key earlier)"
| "last_write G key (RemoveAll skip limit order predicate # earlier) = None"

definition latest :: "'r getter \<Rightarrow> int \<Rightarrow> 'r operation list \<Rightarrow> 'r option" where
  "latest G key ops = last_write G key (rev ops)"

section \<open>Invariants of the index states\<close>

text \<open>An alternative is a chain of trees that ends in the tree keyed by the primary key
  over the leaf.\<close>

fun wf_index :: "index \<Rightarrow> bool" where
  "wf_index ValueIndex = False"
| "wf_index (TreeIndex p ValueIndex) = (p = primaryKey)"
| "wf_index (TreeIndex p (TreeIndex q t)) = wf_index (TreeIndex q t)"

text \<open>The nodes of a tree are in strictly increasing key order, no node has an empty
  tail, and every record below a node has the node's key.\<close>

fun shape :: "'r getter \<Rightarrow> index \<Rightarrow> 'r istate \<Rightarrow> bool" where
  "shape G ValueIndex s = (case s of Leaf r \<Rightarrow> True | _ \<Rightarrow> False)"
| "shape G (TreeIndex p tail) s =
     (case s of
        Tree kts \<Rightarrow> kts \<noteq> [] \<and> sorted_wrt (<) (map fst kts) \<and>
          (\<forall>kt \<in> set kts. shape G tail (snd kt) \<and> (\<forall>r \<in> set (records (snd kt)). G p r = fst kt))
      | _ \<Rightarrow> False)"

text \<open>A state of an index is the empty state or a well-shaped one.\<close>

definition ok :: "'r getter \<Rightarrow> index \<Rightarrow> 'r istate \<Rightarrow> bool" where
  "ok G d s = (s = Null \<or> shape G d s)"

text \<open>The condition of \<open>shape\<close> on the nodes of a tree, also for no nodes.\<close>

definition nodes_ok :: "'r getter \<Rightarrow> property_info \<Rightarrow> index \<Rightarrow> (int \<times> 'r istate) list \<Rightarrow> bool" where
  "nodes_ok G p tail kts =
     (sorted_wrt (<) (map fst kts) \<and>
      (\<forall>kt \<in> set kts. shape G tail (snd kt) \<and> (\<forall>r \<in> set (records (snd kt)). G p r = fst kt)))"

text \<open>The records below a list of nodes, and the tail state of the node of a key (the
  empty state if there is no such node).\<close>

abbreviation recs :: "(int \<times> 'r istate) list \<Rightarrow> 'r list" where
  "recs kts \<equiv> concat (map (\<lambda>kt. records (snd kt)) kts)"

definition tail_at :: "(int \<times> 'r istate) list \<Rightarrow> int \<Rightarrow> 'r istate" where
  "tail_at kts k = (case map_of kts k of None \<Rightarrow> Null | Some t \<Rightarrow> t)"

text \<open>The records in the slot of an alternative; the stored records of the engine are
  those of its first alternative, the primary-key tree.\<close>

definition slot_records :: "'r mdao \<Rightarrow> nat \<Rightarrow> 'r list" where
  "slot_records m i = records (slot (mdao_state m) i)"

definition stored :: "'r mdao \<Rightarrow> 'r list" where
  "stored m = slot_records m 0"

text \<open>The invariant of the data model (section 3 of the specification): every alternative
  holds the complete record set. Every alternative is a well-formed chain, and every
  slot is a well-shaped state of its alternative that holds the stored records, each
  primary key once.\<close>

definition inv :: "'r getter \<Rightarrow> 'r mdao \<Rightarrow> bool" where
  "inv G m =
     (mdao_index m \<noteq> [] \<and> (\<forall>d \<in> set (mdao_index m). wf_index d) \<and>
      (\<forall>i < length (mdao_index m).
         ok G (mdao_index m ! i) (slot (mdao_state m) i) \<and>
         distinct (map (G primaryKey) (slot_records m i)) \<and>
         mset (slot_records m i) = mset (stored m)))"

section \<open>Records as references into an object store\<close>







section \<open>An example engine\<close>

text \<open>The three records of section 8 of the specification, put into an engine with an
  alternative on the property \<^verbatim>\<open>a\<close>; and the same engine over references into a store
  that holds the three records.\<close>

definition rec1 :: fobject where "rec1 = [(''id'', 1), (''a'', 5)]"
definition rec2 :: fobject where "rec2 = [(''id'', 2), (''a'', 5)]"
definition rec3 :: fobject where "rec3 = [(''id'', 3), (''a'', 7)]"
definition rec1' :: fobject where "rec1' = [(''id'', 1), (''a'', 7)]"

definition example_history :: "fobject operation list" where
  "example_history = [Put rec1, Put rec2, Put rec3]"

definition example_engine :: "fobject mdao" where
  "example_engine = run get example_history (engine [''a''])"




section \<open>Trees: shape and content after a write\<close>

lemma records_tree [simp]: "records (tree kts) = recs kts"
  by (cases kts) (simp_all add: tree_def)

lemma nodes_tree [simp]: "nodes (tree kts) = kts"
  by (cases kts) (simp_all add: tree_def)

lemma tree_Null_iff: "tree kts = Null \<longleftrightarrow> kts = []"
  by (cases kts) (simp_all add: tree_def)

lemma attach_Null [simp]: "attach k Null kts = kts"
  by (simp add: attach_def)

lemma attach_not_Null: "t \<noteq> Null \<Longrightarrow> attach k t kts = (k, t) # kts"
  by (cases t) (simp_all add: attach_def)

lemma recs_attach [simp]: "recs (attach k t kts) = records t @ recs kts"
  by (cases t) (simp_all add: attach_def)

lemma less_keys_map_of_None:
  "\<forall>k' \<in> set (map fst kts). (k::int) < k' \<Longrightarrow> map_of kts k = None"
  by (induction kts) auto

lemma mset_recs_modify:
  "sorted_wrt (<) (map fst kts) \<Longrightarrow>
   mset (recs (modify k f kts)) =
     mset (recs (filter (\<lambda>kt. fst kt \<noteq> k) kts)) + mset (records (f (tail_at kts k)))"
proof (induction kts)
  case Nil
  then show ?case by (simp add: tail_at_def)
next
  case (Cons a kts)
  obtain k' t where a: "a = (k', t)" by (cases a)
  show ?case
  proof (cases "k < k'")
    case True
    then have "\<forall>x \<in> set (map fst (a # kts)). k < x" using Cons.prems a by auto
    then have none: "map_of (a # kts) k = None"
      by (rule less_keys_map_of_None)
    have "\<forall>kt \<in> set (a # kts). fst kt \<noteq> k" using \<open>\<forall>x \<in> set (map fst (a # kts)). k < x\<close> by auto
    then have "filter (\<lambda>kt. fst kt \<noteq> k) (a # kts) = a # kts" by (simp only: filter_True)
    then show ?thesis using True none a by (simp add: tail_at_def)
  next
    case False
    show ?thesis
    proof (cases "k = k'")
      case True
      have "\<forall>x \<in> set (map fst kts). k < x" using Cons.prems a True by auto
      then have "\<forall>kt \<in> set kts. fst kt \<noteq> k" by auto
      then have "filter (\<lambda>kt. fst kt \<noteq> k) kts = kts" by (simp only: filter_True)
      then show ?thesis using True a by (simp add: tail_at_def)
    next
      case neq: False
      have "sorted_wrt (<) (map fst kts)" using Cons.prems by simp
      from Cons.IH [OF this] show ?thesis using False neq a by (simp add: tail_at_def)
    qed
  qed
qed


lemma modify_cases:
  "sorted_wrt (<) (map fst kts) \<Longrightarrow> kt \<in> set (modify k f kts) \<Longrightarrow>
   (kt \<in> set kts \<and> fst kt \<noteq> k) \<or> (kt = (k, f (tail_at kts k)) \<and> f (tail_at kts k) \<noteq> Null)"
proof (induction kts)
  case Nil
  then show ?case by (cases "f Null") (auto simp: tail_at_def attach_def)
next
  case (Cons a kts)
  obtain k' t where a: "a = (k', t)" by (cases a)
  show ?case
  proof (cases "k < k'")
    case True
    then have "\<forall>x \<in> set (map fst (a # kts)). k < x" using Cons.prems a by auto
    then have none: "map_of (a # kts) k = None" by (rule less_keys_map_of_None)
    have ne: "\<forall>kt \<in> set (a # kts). fst kt \<noteq> k" using \<open>\<forall>x \<in> set (map fst (a # kts)). k < x\<close> by auto
    show ?thesis using Cons.prems(2) True none a ne
      by (cases "f Null") (auto simp: tail_at_def attach_def)
  next
    case False
    show ?thesis
    proof (cases "k = k'")
      case True
      have "\<forall>x \<in> set (map fst kts). k < x" using Cons.prems a True by auto
      then have ne: "\<forall>kt \<in> set kts. fst kt \<noteq> k" by auto
      show ?thesis using Cons.prems(2) True a ne
        by (cases "f t") (auto simp: tail_at_def attach_def)
    next
      case neq: False
      have "sorted_wrt (<) (map fst kts)" using Cons.prems by simp
      from Cons.IH [OF this] show ?thesis using Cons.prems(2) False neq a by (auto simp: tail_at_def)
    qed
  qed
qed

lemma sorted_modify:
  "sorted_wrt (<) (map fst kts) \<Longrightarrow> sorted_wrt (<) (map fst (modify k f kts))"
proof (induction kts)
  case Nil
  then show ?case by (cases "f Null") (auto simp: attach_def)
next
  case (Cons a kts)
  obtain k' t where a: "a = (k', t)" by (cases a)
  have s: "sorted_wrt (<) (map fst kts)" using Cons.prems by simp
  have keys: "\<forall>kt \<in> set (modify k f kts). fst kt = k \<or> kt \<in> set kts"
    using modify_cases [OF s] by fastforce
  show ?case
  proof (cases "k < k'")
    case True
    then show ?thesis using Cons.prems a by (cases "f Null") (auto simp: attach_def)
  next
    case False
    show ?thesis
    proof (cases "k = k'")
      case True
      then show ?thesis using Cons.prems a by (cases "f t") (auto simp: attach_def)
    next
      case neq: False
      then have "k' < k" using False by simp
      then show ?thesis using Cons.IH [OF s] Cons.prems a False neq keys by auto
    qed
  qed
qed

lemma modify_not_Nil:
  "f (tail_at kts k) \<noteq> Null \<Longrightarrow> sorted_wrt (<) (map fst kts) \<Longrightarrow> modify k f kts \<noteq> []"
proof (induction kts)
  case Nil
  then show ?case by (cases "f Null") (auto simp: attach_def tail_at_def)
next
  case (Cons a kts)
  obtain k' t where a: "a = (k', t)" by (cases a)
  show ?case
  proof (cases "k < k'")
    case True
    then have "\<forall>x \<in> set (map fst (a # kts)). k < x" using Cons.prems a by auto
    then have none: "map_of (a # kts) k = None" by (rule less_keys_map_of_None)
    then show ?thesis using Cons.prems True a by (cases "f Null") (auto simp: attach_def tail_at_def)
  next
    case False
    then show ?thesis using Cons.prems a by (cases "f t") (auto simp: attach_def tail_at_def)
  qed
qed


lemma shape_not_Null: "shape G d s \<Longrightarrow> s \<noteq> Null"
  by (cases d) auto

lemma ok_Null [simp]: "ok G d Null"
  by (simp add: ok_def)

lemma ok_nodes:
  "ok G (TreeIndex p tail) s \<Longrightarrow> nodes_ok G p tail (nodes s) \<and> records s = recs (nodes s)"
  by (cases s) (auto simp: ok_def nodes_ok_def)

lemma nodes_ok_tree: "nodes_ok G p tail kts \<Longrightarrow> ok G (TreeIndex p tail) (tree kts)"
  by (cases kts) (auto simp: ok_def nodes_ok_def tree_def)

lemma tail_at_cases: "tail_at kts k = Null \<or> (k, tail_at kts k) \<in> set kts"
  by (auto simp: tail_at_def split: option.splits dest: map_of_SomeD)

lemma nodes_ok_tail_at: "nodes_ok G p tail kts \<Longrightarrow> ok G tail (tail_at kts k)"
  using tail_at_cases [of kts k] by (auto simp: ok_def nodes_ok_def)

lemma nodes_ok_tail_at_key:
  "nodes_ok G p tail kts \<Longrightarrow> x \<in> set (records (tail_at kts k)) \<Longrightarrow> G p x = k"
  using tail_at_cases [of kts k] by (auto simp: nodes_ok_def)

lemma records_tail_at_subset: "set (records (tail_at kts k)) \<subseteq> set (recs kts)"
  using tail_at_cases [of kts k] by auto

lemma nodes_ok_modify:
  assumes n: "nodes_ok G p tail kts"
    and f: "ok G tail (f (tail_at kts k))"
    and key: "\<forall>x \<in> set (records (f (tail_at kts k))). G p x = k"
  shows "nodes_ok G p tail (modify k f kts)"
proof -
  have s: "sorted_wrt (<) (map fst kts)" using n by (simp add: nodes_ok_def)
  have "shape G tail (snd kt) \<and> (\<forall>r \<in> set (records (snd kt)). G p r = fst kt)"
    if "kt \<in> set (modify k f kts)" for kt
  proof -
    from modify_cases [OF s that]
    consider "kt \<in> set kts" | "kt = (k, f (tail_at kts k))" "f (tail_at kts k) \<noteq> Null"
      by blast
    then show ?thesis
    proof cases
      case 1
      then show ?thesis using n by (simp add: nodes_ok_def)
    next
      case 2
      then show ?thesis using f key by (auto simp: ok_def)
    qed
  qed
  then show ?thesis using sorted_modify [OF s] by (simp add: nodes_ok_def)
qed

lemma set_recs_modify:
  "sorted_wrt (<) (map fst kts) \<Longrightarrow>
   set (recs (modify k f kts)) \<subseteq> set (recs kts) \<union> set (records (f (tail_at kts k)))"
proof -
  assume s: "sorted_wrt (<) (map fst kts)"
  have "set_mset (mset (recs (modify k f kts))) =
    set_mset (mset (recs (filter (\<lambda>kt. fst kt \<noteq> k) kts)) + mset (records (f (tail_at kts k))))"
    using mset_recs_modify [OF s] by simp
  then show ?thesis by auto
qed

lemma ok_index_put:
  "ok G d s \<Longrightarrow>
   ok G d (index_put G d s r) \<and> set (records (index_put G d s r)) \<subseteq> insert r (set (records s))"
proof (induction d arbitrary: s)
  case ValueIndex
  then show ?case by (simp add: ok_def)
next
  case (TreeIndex p tail)
  let ?kts = "nodes s" and ?k = "G p r" and ?f = "\<lambda>t. index_put G tail t r"
  from ok_nodes [OF TreeIndex.prems]
  have n: "nodes_ok G p tail ?kts" and r: "records s = recs ?kts" by simp_all
  have s: "sorted_wrt (<) (map fst ?kts)" using n by (simp add: nodes_ok_def)
  have ih: "ok G tail (?f (tail_at ?kts ?k))"
    "set (records (?f (tail_at ?kts ?k))) \<subseteq> insert r (set (records (tail_at ?kts ?k)))"
    using TreeIndex.IH [OF nodes_ok_tail_at [OF n]] by simp_all
  have key: "\<forall>x \<in> set (records (?f (tail_at ?kts ?k))). G p x = ?k"
    using ih(2) nodes_ok_tail_at_key [OF n] by blast
  have "nodes_ok G p tail (modify ?k ?f ?kts)"
    using n ih(1) key by (rule nodes_ok_modify)
  then have 1: "ok G (TreeIndex p tail) (index_put G (TreeIndex p tail) s r)"
    by (simp add: nodes_ok_tree)
  have 2: "set (records (index_put G (TreeIndex p tail) s r)) \<subseteq> insert r (set (records s))"
    using set_recs_modify [OF s, of ?k ?f] ih(2) records_tail_at_subset [of ?kts ?k] r
    by auto
  show ?case using 1 2 by simp
qed

lemma ok_index_remove:
  "ok G d s \<Longrightarrow>
   ok G d (index_remove G d s r) \<and> set (records (index_remove G d s r)) \<subseteq> set (records s)"
proof (induction d arbitrary: s)
  case ValueIndex
  then show ?case by (simp add: ok_def)
next
  case (TreeIndex p tail)
  let ?kts = "nodes s" and ?k = "G p r" and ?f = "\<lambda>t. index_remove G tail t r"
  from ok_nodes [OF TreeIndex.prems]
  have n: "nodes_ok G p tail ?kts" and r: "records s = recs ?kts" by simp_all
  have s: "sorted_wrt (<) (map fst ?kts)" using n by (simp add: nodes_ok_def)
  have ih: "ok G tail (?f (tail_at ?kts ?k))"
    "set (records (?f (tail_at ?kts ?k))) \<subseteq> set (records (tail_at ?kts ?k))"
    using TreeIndex.IH [OF nodes_ok_tail_at [OF n]] by simp_all
  have key: "\<forall>x \<in> set (records (?f (tail_at ?kts ?k))). G p x = ?k"
    using ih(2) nodes_ok_tail_at_key [OF n] by blast
  have "nodes_ok G p tail (modify ?k ?f ?kts)"
    using n ih(1) key by (rule nodes_ok_modify)
  then have 1: "ok G (TreeIndex p tail) (index_remove G (TreeIndex p tail) s r)"
    by (simp add: nodes_ok_tree)
  have 2: "set (records (index_remove G (TreeIndex p tail) s r)) \<subseteq> set (records s)"
    using set_recs_modify [OF s, of ?k ?f] ih(2) records_tail_at_subset [of ?kts ?k] r
    by auto
  show ?case using 1 2 by simp
qed

lemma strict_sorted_distinct: "sorted_wrt (<) (ks :: int list) \<Longrightarrow> distinct ks"
  by (induction ks) auto

lemma mset_recs_split:
  "sorted_wrt (<) (map fst kts) \<Longrightarrow>
   mset (recs kts) = mset (recs (filter (\<lambda>kt. fst kt \<noteq> k) kts)) + mset (records (tail_at kts k))"
proof (induction kts)
  case Nil
  then show ?case by (simp add: tail_at_def)
next
  case (Cons a kts)
  obtain k' t where a: "a = (k', t)" by (cases a)
  show ?case
  proof (cases "k = k'")
    case True
    have "\<forall>x \<in> set (map fst kts). k < x" using Cons.prems a True by auto
    then have "\<forall>kt \<in> set kts. fst kt \<noteq> k" by auto
    then have "filter (\<lambda>kt. fst kt \<noteq> k) kts = kts" by (simp only: filter_True)
    then show ?thesis using True a by (simp add: tail_at_def)
  next
    case False
    have "sorted_wrt (<) (map fst kts)" using Cons.prems by simp
    from Cons.IH [OF this] show ?thesis using False a by (simp add: tail_at_def)
  qed
qed

lemma nodes_ok_member_tail_at:
  assumes n: "nodes_ok G p tail kts" and r: "r \<in> set (recs kts)"
  shows "r \<in> set (records (tail_at kts (G p r)))"
proof -
  from r obtain kt where kt: "kt \<in> set kts" "r \<in> set (records (snd kt))" by auto
  then have k: "G p r = fst kt" using n by (simp add: nodes_ok_def)
  have "distinct (map fst kts)" using n by (simp add: nodes_ok_def strict_sorted_distinct)
  then have "map_of kts (fst kt) = Some (snd kt)" using kt(1) by (simp add: map_of_is_SomeI)
  then show ?thesis using kt(2) k by (simp add: tail_at_def)
qed

lemma mset_index_remove:
  "ok G d s \<Longrightarrow> r \<in> set (records s) \<Longrightarrow>
   mset (records (index_remove G d s r)) = mset (records s) - {#r#}"
proof (induction d arbitrary: s)
  case ValueIndex
  then show ?case by (cases s) (auto simp: ok_def)
next
  case (TreeIndex p tail)
  let ?kts = "nodes s" and ?k = "G p r" and ?f = "\<lambda>t. index_remove G tail t r"
  from ok_nodes [OF TreeIndex.prems(1)]
  have n: "nodes_ok G p tail ?kts" and r: "records s = recs ?kts" by simp_all
  have s: "sorted_wrt (<) (map fst ?kts)" using n by (simp add: nodes_ok_def)
  have mem: "r \<in> set (records (tail_at ?kts ?k))"
    using nodes_ok_member_tail_at [OF n] TreeIndex.prems(2) r by simp
  have ih: "mset (records (?f (tail_at ?kts ?k))) = mset (records (tail_at ?kts ?k)) - {#r#}"
    using TreeIndex.IH [OF nodes_ok_tail_at [OF n] mem] .
  have "mset (records (index_remove G (TreeIndex p tail) s r)) =
      mset (recs (filter (\<lambda>kt. fst kt \<noteq> ?k) ?kts)) + (mset (records (tail_at ?kts ?k)) - {#r#})"
    using mset_recs_modify [OF s, of ?k ?f] ih by simp
  also have "\<dots> = (mset (recs (filter (\<lambda>kt. fst kt \<noteq> ?k) ?kts)) + mset (records (tail_at ?kts ?k))) - {#r#}"
    using mem by simp
  also have "\<dots> = mset (records s) - {#r#}"
    using mset_recs_split [OF s, of ?k] r by simp
  finally show ?case .
qed

lemma mset_index_put:
  "wf_index d \<Longrightarrow> ok G d s \<Longrightarrow> \<forall>x \<in> set (records s). G primaryKey x \<noteq> G primaryKey r \<Longrightarrow>
   mset (records (index_put G d s r)) = add_mset r (mset (records s))"
proof (induction d arbitrary: s rule: wf_index.induct)
  case 1
  then show ?case by simp
next
  case (2 p)
  let ?kts = "nodes s" and ?k = "G p r" and ?f = "\<lambda>t. index_put G ValueIndex t r"
  have p: "p = primaryKey" using "2.prems"(1) by simp
  from ok_nodes [OF "2.prems"(2)]
  have n: "nodes_ok G p ValueIndex ?kts" and r: "records s = recs ?kts" by simp_all
  have s: "sorted_wrt (<) (map fst ?kts)" using n by (simp add: nodes_ok_def)
  have "records (tail_at ?kts ?k) = []"
  proof (rule ccontr)
    assume "records (tail_at ?kts ?k) \<noteq> []"
    then obtain x where x: "x \<in> set (records (tail_at ?kts ?k))" by (cases "records (tail_at ?kts ?k)") auto
    then have "G p x = ?k" using nodes_ok_tail_at_key [OF n] by blast
    moreover have "x \<in> set (records s)" using x records_tail_at_subset [of ?kts ?k] r by auto
    ultimately show False using "2.prems"(3) p by auto
  qed
  then show ?case using mset_recs_modify [OF s, of ?k ?f] mset_recs_split [OF s, of ?k] r by simp
next
  case (3 p q t)
  let ?tail = "TreeIndex q t"
  let ?kts = "nodes s" and ?k = "G p r" and ?f = "\<lambda>u. index_put G ?tail u r"
  from ok_nodes [OF "3.prems"(2)]
  have n: "nodes_ok G p ?tail ?kts" and r: "records s = recs ?kts" by simp_all
  have s: "sorted_wrt (<) (map fst ?kts)" using n by (simp add: nodes_ok_def)
  have fresh: "\<forall>x \<in> set (records (tail_at ?kts ?k)). G primaryKey x \<noteq> G primaryKey r"
    using "3.prems"(3) records_tail_at_subset [of ?kts ?k] r by auto
  have wf: "wf_index ?tail" using "3.prems"(1) by simp
  have ih: "mset (records (?f (tail_at ?kts ?k))) = add_mset r (mset (records (tail_at ?kts ?k)))"
    using "3.IH" [OF wf nodes_ok_tail_at [OF n] fresh] .
  show ?case using mset_recs_modify [OF s, of ?k ?f] mset_recs_split [OF s, of ?k] r ih by simp
qed

lemma find_append:
  "List.find P (xs @ ys) = (case List.find P xs of None \<Rightarrow> List.find P ys | Some x \<Rightarrow> Some x)"
  by (induction xs) auto

lemma first_some_cong:
  "\<forall>x \<in> set xs. f x = g x \<Longrightarrow> first_some f xs = first_some g xs"
  by (induction xs) (auto split: option.splits)

lemma find_concat:
  "first_some (\<lambda>x. List.find P (g x)) xs = List.find P (concat (map g xs))"
proof (induction xs)
  case Nil
  then show ?case by simp
next
  case (Cons x xs)
  then show ?case by (cases "List.find P (g x)") (auto simp: find_append)
qed

lemma find_None_if: "\<forall>x \<in> set xs. \<not> P x \<Longrightarrow> List.find P xs = None"
  by (simp add: find_None_iff)

lemma find_keyed_nodes:
  assumes keyed: "\<forall>kt \<in> set kts. \<forall>r \<in> set (records (snd kt)). f r = fst kt"
    and d: "distinct (map fst kts)"
  shows "List.find (\<lambda>r. f r = key) (recs kts) = List.find (\<lambda>r. f r = key) (records (tail_at kts key))"
  using assms
proof (induction kts)
  case Nil
  then show ?case by (simp add: tail_at_def)
next
  case (Cons a kts)
  obtain k' t where a: "a = (k', t)" by (cases a)
  show ?case
  proof (cases "key = k'")
    case True
    have "\<forall>kt \<in> set kts. \<forall>r \<in> set (records (snd kt)). f r \<noteq> key"
      using Cons.prems a True by force
    then have "List.find (\<lambda>r. f r = key) (recs kts) = None"
      by (intro find_None_if) auto
    then show ?thesis using True a
      by (cases "List.find (\<lambda>r. f r = key) (records t)") (auto simp: tail_at_def find_append)
  next
    case False
    have "\<forall>r \<in> set (records t). f r \<noteq> key" using Cons.prems(1) a False by auto
    then have "List.find (\<lambda>r. f r = key) (records t) = None" by (intro find_None_if) auto
    moreover have "List.find (\<lambda>r. f r = key) (recs kts) = List.find (\<lambda>r. f r = key) (records (tail_at kts key))"
      using Cons.IH Cons.prems by simp
    ultimately show ?thesis using False a by (simp add: tail_at_def find_append)
  qed
qed

lemma index_find_records:
  "wf_index d \<Longrightarrow> ok G d s \<Longrightarrow>
   index_find d s key = List.find (\<lambda>r. G primaryKey r = key) (records s)"
proof (induction d arbitrary: s rule: wf_index.induct)
  case 1
  then show ?case by simp
next
  case (2 p)
  let ?kts = "nodes s"
  have p: "p = primaryKey" using "2.prems"(1) by simp
  from ok_nodes [OF "2.prems"(2)]
  have n: "nodes_ok G p ValueIndex ?kts" and r: "records s = recs ?kts" by simp_all
  have d: "distinct (map fst ?kts)" using n by (simp add: nodes_ok_def strict_sorted_distinct)
  have keyed: "\<forall>kt \<in> set ?kts. \<forall>r \<in> set (records (snd kt)). G primaryKey r = fst kt"
    using n p by (simp add: nodes_ok_def)
  have "index_find ValueIndex (tail_at ?kts key) key =
      List.find (\<lambda>r. G primaryKey r = key) (records (tail_at ?kts key))"
  proof (cases "tail_at ?kts key")
    case (Leaf x)
    then have "G p x = key" using nodes_ok_tail_at_key [OF n, of x key] by simp
    then show ?thesis using Leaf p by simp
  next
    case (Tree ns)
    then show ?thesis using nodes_ok_tail_at [OF n, of key] by (simp add: ok_def)
  qed simp_all
  moreover have "index_find (TreeIndex p ValueIndex) s key = index_find ValueIndex (tail_at ?kts key) key"
    using p by (simp add: tail_at_def split: option.splits)
  ultimately show ?case using find_keyed_nodes [OF keyed d, of key] r by simp
next
  case (3 p q t)
  let ?tail = "TreeIndex q t"
  let ?kts = "nodes s"
  let ?P = "\<lambda>r. G primaryKey r = key"
  from ok_nodes [OF "3.prems"(2)]
  have n: "nodes_ok G p ?tail ?kts" and r: "records s = recs ?kts" by simp_all
  have wf: "wf_index ?tail" using "3.prems"(1) by simp
  have ih: "index_find ?tail u key = List.find ?P (records u)" if "ok G ?tail u" for u
    using "3.IH" [OF wf that] .
  show ?case
  proof (cases "p = primaryKey")
    case True
    have d: "distinct (map fst ?kts)" using n by (simp add: nodes_ok_def strict_sorted_distinct)
    have keyed: "\<forall>kt \<in> set ?kts. \<forall>r \<in> set (records (snd kt)). G primaryKey r = fst kt"
      using n True by (simp add: nodes_ok_def)
    have "index_find (TreeIndex p ?tail) s key = index_find ?tail (tail_at ?kts key) key"
      using True by (simp add: tail_at_def split: option.splits)
    then show ?thesis
      using ih [OF nodes_ok_tail_at [OF n]] find_keyed_nodes [OF keyed d, of key] r by simp
  next
    case False
    have "\<forall>kt \<in> set ?kts. index_find ?tail (snd kt) key = List.find ?P (records (snd kt))"
      using n ih by (simp add: nodes_ok_def ok_def)
    then have "first_some (\<lambda>kt. index_find ?tail (snd kt) key) ?kts =
        first_some (\<lambda>kt. List.find ?P (records (snd kt))) ?kts"
      by (rule first_some_cong)
    then show ?thesis using False r find_concat [of ?P "\<lambda>kt. records (snd kt)" ?kts] by simp
  qed
qed

section \<open>The engine invariant\<close>

lemma length_slot_states [simp]: "length (slot_states ds st) = length ds"
  by (simp add: slot_states_def)

lemma nth_slot_states [simp]: "i < length ds \<Longrightarrow> slot_states ds st ! i = slot st i"
  by (simp add: slot_states_def)

lemma slot_Slots: "slot (Slots ss) i = (if i < length ss then ss ! i else Null)"
  by (simp add: slot_def)

lemma slot_Null [simp]: "slot Null i = Null"
  by (simp add: slot_def)

lemma slot_alt_put:
  "i < length ds \<Longrightarrow> slot (alt_put G ds st r) i = index_put G (ds ! i) (slot st i) r"
  by (simp add: alt_put_def slot_Slots)

lemma slot_alt_remove:
  "i < length ds \<Longrightarrow> slot (alt_remove G ds st r) i = index_remove G (ds ! i) (slot st i) r"
  by (simp add: alt_remove_def slot_Slots)

lemma first_min_less: "first_min cs = Some i \<Longrightarrow> i < length cs"
proof (induction cs arbitrary: i)
  case Nil
  then show ?case by simp
next
  case (Cons c cs)
  then show ?case by (cases "first_min cs") (auto split: if_splits)
qed

lemma first_min_None: "first_min cs = None \<longleftrightarrow> cs = []"
  by (cases cs) (auto split: option.splits)

lemma plan_find_index_planFind:
  "plan_find (index_planFind d s key) s' key' = index_find d s' key'"
  by (cases d) simp_all

lemma plan_find_alt_planFind:
  assumes "ds \<noteq> []"
  shows "\<exists>i < length ds. plan_find (alt_planFind ds st key) st key = index_find (ds ! i) (slot st i) key"
proof -
  let ?cands = "map (\<lambda>ds'. index_planFind (fst ds') (snd ds') key) (zip ds (slot_states ds st))"
  let ?costs = "map (\<lambda>p. case find_cost p of Some c \<Rightarrow> c | None \<Rightarrow> 0) ?cands"
  have "length ?costs = length ds" by simp
  then have "?costs \<noteq> []" using assms by (metis length_0_conv)
  then obtain i where i: "first_min ?costs = Some i"
    using first_min_None [of ?costs] by (cases "first_min ?costs") auto
  then have l: "i < length ds" using first_min_less [OF i] by simp
  then have "?cands ! i = index_planFind (ds ! i) (slot st i) key" by simp
  then have "plan_find (alt_planFind ds st key) st key = index_find (ds ! i) (slot st i) key"
    using i by (simp add: alt_planFind_def Let_def plan_find_index_planFind)
  then show ?thesis using l by blast
qed

lemma find_key_Some_iff:
  "distinct (map f xs) \<Longrightarrow> List.find (\<lambda>r. f r = key) xs = Some r \<longleftrightarrow> r \<in> set xs \<and> f r = key"
  by (induction xs) auto

lemma find_key_mset:
  assumes "distinct (map f xs)" and "mset xs = mset ys"
  shows "List.find (\<lambda>r. f r = key) xs = List.find (\<lambda>r. f r = key) ys"
proof -
  have s: "set xs = set ys" using assms(2) by (rule mset_eq_setD)
  have "mset (map f xs) = mset (map f ys)" using assms(2) by simp
  then have d: "distinct (map f ys)" using assms(1) mset_eq_imp_distinct_iff by blast
  show ?thesis
  proof (cases "List.find (\<lambda>r. f r = key) xs")
    case None
    then have "\<forall>r \<in> set ys. f r \<noteq> key" using s by (auto simp: find_None_iff)
    then have "List.find (\<lambda>r. f r = key) ys = None" by (simp add: find_None_iff)
    then show ?thesis using None by simp
  next
    case (Some r)
    then have "r \<in> set ys \<and> f r = key" using find_key_Some_iff [OF assms(1)] s by auto
    then show ?thesis using Some find_key_Some_iff [OF d, of key r] by simp
  qed
qed

lemma inv_lookup_key:
  assumes "inv G m"
  shows "plan_find (alt_planFind (mdao_index m) (mdao_state m) key) (mdao_state m) key =
         List.find (\<lambda>r. G primaryKey r = key) (stored m)"
proof -
  let ?ds = "mdao_index m" and ?st = "mdao_state m"
  have ne: "?ds \<noteq> []" using assms by (simp add: inv_def)
  from plan_find_alt_planFind [OF ne, of ?st key]
  obtain i where i: "i < length ?ds"
    and f: "plan_find (alt_planFind ?ds ?st key) ?st key = index_find (?ds ! i) (slot ?st i) key"
    by blast
  have wf: "wf_index (?ds ! i)" using assms i by (simp add: inv_def)
  have ok: "ok G (?ds ! i) (slot ?st i)" using assms i by (simp add: inv_def)
  have d: "distinct (map (G primaryKey) (slot_records m i))" using assms i by (simp add: inv_def)
  have e: "mset (slot_records m i) = mset (stored m)" using assms i by (simp add: inv_def)
  have "index_find (?ds ! i) (slot ?st i) key = List.find (\<lambda>r. G primaryKey r = key) (slot_records m i)"
    using index_find_records [OF wf ok] by (simp add: slot_records_def)
  then show ?thesis using f find_key_mset [OF d e] by simp
qed

lemma inv_find_key:
  "inv G m \<Longrightarrow> mdao_find G m (Some (RawKey key)) = List.find (\<lambda>r. G primaryKey r = key) (stored m)"
  by (simp add: mdao_find_def lookup_def maybeClone_def inv_lookup_key split: option.splits)

lemma inv_find_instance:
  "inv G m \<Longrightarrow> mdao_find G m (Some (Instance x)) =
     List.find (\<lambda>r. G primaryKey r = G primaryKey x) (stored m)"
  by (simp add: mdao_find_def lookup_def maybeClone_def inv_lookup_key split: option.splits)

lemma inv_stored_distinct: "inv G m \<Longrightarrow> distinct (map (G primaryKey) (stored m))"
  by (auto simp: inv_def stored_def)

lemma mset_remove_key:
  "distinct (map f xs) \<Longrightarrow> x \<in> set xs \<Longrightarrow>
   mset xs - {#x#} = filter_mset (\<lambda>y. f y \<noteq> f x) (mset xs)"
proof (induction xs)
  case Nil
  then show ?case by simp
next
  case (Cons a xs)
  show ?case
  proof (cases "a = x")
    case True
    have "f a \<notin> f ` set xs" using Cons.prems(1) by simp
    then have "\<forall>y \<in> set xs. f y \<noteq> f x" using True by (metis imageI)
    then have "filter_mset (\<lambda>y. f y \<noteq> f x) (mset xs) = mset xs"
      by (simp add: filter_mset_eq_conv)
    then show ?thesis using True by simp
  next
    case False
    then have x: "x \<in> set xs" using Cons.prems(2) by simp
    then have "f a \<noteq> f x" using Cons.prems(1) by auto
    then show ?thesis using Cons.IH x Cons.prems(1) False by simp
  qed
qed

lemma filter_mset_absent:
  "\<forall>y \<in> set xs. f y \<noteq> k \<Longrightarrow> filter_mset (\<lambda>y. f y \<noteq> k) (mset xs) = mset xs"
  by (simp add: filter_mset_eq_conv)

lemma distinct_map_mset_eq:
  "mset xs = mset ys \<Longrightarrow> distinct (map f xs) \<Longrightarrow> distinct (map f ys)"
proof -
  assume "mset xs = mset ys" and d: "distinct (map f xs)"
  then have "mset (map f xs) = mset (map f ys)" by simp
  then show ?thesis using d mset_eq_imp_distinct_iff by blast
qed

lemma stored_update [simp]:
  "slot_records (m\<lparr>mdao_state := st\<rparr>) i = records (slot st i)"
  "mdao_index (m\<lparr>mdao_state := st\<rparr>) = mdao_index m"
  by (simp_all add: slot_records_def)

lemma inv_remove_found:
  assumes i: "inv G m" and f: "f \<in> set (stored m)"
  defines "m' \<equiv> m\<lparr>mdao_state := alt_remove G (mdao_index m) (mdao_state m) f\<rparr>"
  shows "inv G m'"
    and "mset (stored m') = filter_mset (\<lambda>y. G primaryKey y \<noteq> G primaryKey f) (mset (stored m))"
proof -
  let ?ds = "mdao_index m" and ?st = "mdao_state m"
  let ?new = "filter (\<lambda>y. G primaryKey y \<noteq> G primaryKey f) (stored m)"
  have ne: "?ds \<noteq> []" using i by (simp add: inv_def)
  have sd: "distinct (map (G primaryKey) (stored m))" using i by (rule inv_stored_distinct)
  have each: "ok G (?ds ! j) (slot (mdao_state m') j) \<and> mset (slot_records m' j) = mset ?new"
    if j: "j < length ?ds" for j
  proof -
    have ok: "ok G (?ds ! j) (slot ?st j)" using i j by (simp add: inv_def)
    have e: "mset (slot_records m j) = mset (stored m)" using i j by (simp add: inv_def)
    then have mem: "f \<in> set (records (slot ?st j))"
      using f mset_eq_setD [OF e] by (simp add: slot_records_def)
    have s: "slot (mdao_state m') j = index_remove G (?ds ! j) (slot ?st j) f"
      using j by (simp add: m'_def slot_alt_remove)
    have "mset (slot_records m' j) = mset (stored m) - {#f#}"
      using mset_index_remove [OF ok mem] s e by (simp add: slot_records_def)
    then have "mset (slot_records m' j) = mset ?new"
      using mset_remove_key [OF sd f] by simp
    then show ?thesis using ok_index_remove [OF ok, of f] s by simp
  qed
  have z: "0 < length ?ds" using ne by simp
  have st: "mset (stored m') = mset ?new" using each [OF z] by (simp add: stored_def)
  have dn: "distinct (map (G primaryKey) ?new)" using sd by (simp add: distinct_map_filter)
  have "distinct (map (G primaryKey) (slot_records m' j))" if j: "j < length ?ds" for j
    using each [OF j] dn distinct_map_mset_eq [of ?new "slot_records m' j"] by simp
  then show "inv G m'" using i each st by (simp add: inv_def m'_def)
  show "mset (stored m') = filter_mset (\<lambda>y. G primaryKey y \<noteq> G primaryKey f) (mset (stored m))"
    using st by simp
qed

lemma inv_put_fresh:
  assumes i: "inv G m" and fresh: "\<forall>x \<in> set (stored m). G primaryKey x \<noteq> G primaryKey r"
  defines "m' \<equiv> m\<lparr>mdao_state := alt_put G (mdao_index m) (mdao_state m) r\<rparr>"
  shows "inv G m'" and "mset (stored m') = add_mset r (mset (stored m))"
proof -
  let ?ds = "mdao_index m" and ?st = "mdao_state m"
  have ne: "?ds \<noteq> []" using i by (simp add: inv_def)
  have sd: "distinct (map (G primaryKey) (stored m))" using i by (rule inv_stored_distinct)
  have each: "ok G (?ds ! j) (slot (mdao_state m') j) \<and> mset (slot_records m' j) = mset (r # stored m)"
    if j: "j < length ?ds" for j
  proof -
    have ok: "ok G (?ds ! j) (slot ?st j)" using i j by (simp add: inv_def)
    have wf: "wf_index (?ds ! j)" using i j by (simp add: inv_def)
    have e: "mset (slot_records m j) = mset (stored m)" using i j by (simp add: inv_def)
    then have fr: "\<forall>x \<in> set (records (slot ?st j)). G primaryKey x \<noteq> G primaryKey r"
      using fresh mset_eq_setD [OF e] by (simp add: slot_records_def)
    have s: "slot (mdao_state m') j = index_put G (?ds ! j) (slot ?st j) r"
      using j by (simp add: m'_def slot_alt_put)
    have "mset (slot_records m' j) = mset (r # stored m)"
      using mset_index_put [OF wf ok fr] s e by (simp add: slot_records_def)
    then show ?thesis using ok_index_put [OF ok, of r] s by simp
  qed
  have z: "0 < length ?ds" using ne by simp
  have st: "mset (stored m') = mset (r # stored m)" using each [OF z] by (simp add: stored_def)
  have dn: "distinct (map (G primaryKey) (r # stored m))" using sd fresh by auto
  have "distinct (map (G primaryKey) (slot_records m' j))" if j: "j < length ?ds" for j
    using each [OF j] dn distinct_map_mset_eq [of "r # stored m" "slot_records m' j"] by simp
  then show "inv G m'" using i each st by (simp add: inv_def m'_def)
  show "mset (stored m') = add_mset r (mset (stored m))" using st by simp
qed

lemma find_Some_member: "List.find P xs = Some x \<Longrightarrow> x \<in> set xs \<and> P x"
  by (induction xs) (auto split: if_splits)

lemma inv_put:
  assumes i: "inv G m"
  shows "inv G (snd (mdao_put G m r))"
    and "mset (stored (snd (mdao_put G m r))) =
         add_mset r (filter_mset (\<lambda>y. G primaryKey y \<noteq> G primaryKey r) (mset (stored m)))"
proof -
  let ?old = "mdao_find G m (Some (Instance r))"
  have fo: "?old = List.find (\<lambda>x. G primaryKey x = G primaryKey r) (stored m)"
    using i by (rule inv_find_instance)
  have "inv G (snd (mdao_put G m r)) \<and> mset (stored (snd (mdao_put G m r))) =
         add_mset r (filter_mset (\<lambda>y. G primaryKey y \<noteq> G primaryKey r) (mset (stored m)))"
  proof (cases ?old)
    case None
    then have fresh: "\<forall>x \<in> set (stored m). G primaryKey x \<noteq> G primaryKey r"
      using fo by (simp add: find_None_iff)
    have p: "snd (mdao_put G m r) = m\<lparr>mdao_state := alt_put G (mdao_index m) (mdao_state m) r\<rparr>"
      using None by (simp add: mdao_put_def)
    show ?thesis
      using inv_put_fresh [OF i fresh] filter_mset_absent [of "stored m" "G primaryKey" "G primaryKey r"]
        fresh p by simp
  next
    case (Some old)
    then have o: "old \<in> set (stored m)" "G primaryKey old = G primaryKey r"
      using fo find_Some_member [of "\<lambda>x. G primaryKey x = G primaryKey r" "stored m" old] by simp_all
    let ?m1 = "m\<lparr>mdao_state := alt_remove G (mdao_index m) (mdao_state m) old\<rparr>"
    have i1: "inv G ?m1"
      and s1: "mset (stored ?m1) = filter_mset (\<lambda>y. G primaryKey y \<noteq> G primaryKey old) (mset (stored m))"
      using inv_remove_found [OF i o(1)] by simp_all
    have fresh: "\<forall>x \<in> set (stored ?m1). G primaryKey x \<noteq> G primaryKey r"
    proof
      fix x assume "x \<in> set (stored ?m1)"
      then have "x \<in># mset (stored ?m1)" by simp
      then show "G primaryKey x \<noteq> G primaryKey r" unfolding s1 using o(2) by simp
    qed
    have p: "snd (mdao_put G m r) = ?m1\<lparr>mdao_state := alt_put G (mdao_index ?m1) (mdao_state ?m1) r\<rparr>"
      using Some by (simp add: mdao_put_def)
    show ?thesis using inv_put_fresh [OF i1 fresh] s1 o(2) p by simp
  qed
  then show "inv G (snd (mdao_put G m r))"
    and "mset (stored (snd (mdao_put G m r))) =
         add_mset r (filter_mset (\<lambda>y. G primaryKey y \<noteq> G primaryKey r) (mset (stored m)))"
    by simp_all
qed

lemma inv_remove:
  assumes i: "inv G m"
  shows "inv G (snd (mdao_remove G m (Some r)))"
    and "mset (stored (snd (mdao_remove G m (Some r)))) =
         filter_mset (\<lambda>y. G primaryKey y \<noteq> G primaryKey r) (mset (stored m))"
    and "fst (mdao_remove G m (Some r)) = List.find (\<lambda>x. G primaryKey x = G primaryKey r) (stored m)"
proof -
  let ?found = "mdao_find G m (Some (Instance r))"
  have fo: "?found = List.find (\<lambda>x. G primaryKey x = G primaryKey r) (stored m)"
    using i by (rule inv_find_instance)
  show "fst (mdao_remove G m (Some r)) = List.find (\<lambda>x. G primaryKey x = G primaryKey r) (stored m)"
    unfolding mdao_remove_def using fo by (simp add: Let_def split: option.splits)
  have "inv G (snd (mdao_remove G m (Some r))) \<and> mset (stored (snd (mdao_remove G m (Some r)))) =
         filter_mset (\<lambda>y. G primaryKey y \<noteq> G primaryKey r) (mset (stored m))"
  proof (cases ?found)
    case None
    then have fresh: "\<forall>x \<in> set (stored m). G primaryKey x \<noteq> G primaryKey r"
      using fo by (simp add: find_None_iff)
    have "snd (mdao_remove G m (Some r)) = m" using None by (simp add: mdao_remove_def)
    then show ?thesis
      using i filter_mset_absent [of "stored m" "G primaryKey" "G primaryKey r"] fresh by simp
  next
    case (Some f)
    then have o: "f \<in> set (stored m)" "G primaryKey f = G primaryKey r"
      using fo find_Some_member [of "\<lambda>x. G primaryKey x = G primaryKey r" "stored m" f] by simp_all
    have "snd (mdao_remove G m (Some r)) = m\<lparr>mdao_state := alt_remove G (mdao_index m) (mdao_state m) f\<rparr>"
      using Some by (simp add: mdao_remove_def)
    then show ?thesis using inv_remove_found [OF i o(1)] o(2) by simp
  qed
  then show "inv G (snd (mdao_remove G m (Some r)))"
    and "mset (stored (snd (mdao_remove G m (Some r)))) =
         filter_mset (\<lambda>y. G primaryKey y \<noteq> G primaryKey r) (mset (stored m))"
    by simp_all
qed

lemma inv_removeAll:
  "inv G m \<Longrightarrow> inv G (mdao_removeAll m skip limit order predicate)"
  by (simp add: inv_def mdao_removeAll_def slot_records_def stored_def)

lemma stored_removeAll [simp]: "stored (mdao_removeAll m skip limit order predicate) = []"
  by (simp add: mdao_removeAll_def slot_records_def stored_def)

lemma wf_new_TreeIndex [simp]: "wf_index (new_TreeIndex prop)"
  by (simp add: new_TreeIndex_def)

lemma engine_snoc: "engine (props @ [p]) = addIndex p (engine props)"
  by (simp add: engine_def)

lemma engine_fields:
  "mdao_state (engine props :: 'r mdao) = Null \<and> mdao_index (engine props :: 'r mdao) \<noteq> [] \<and>
   (\<forall>d \<in> set (mdao_index (engine props :: 'r mdao)). wf_index d) \<and>
   length (mdao_index (engine props :: 'r mdao)) = Suc (length props)"
proof (induction props rule: rev_induct)
  case Nil
  then show ?case by (simp add: engine_def new_MDAO_def)
next
  case (snoc p props)
  then show ?case by (auto simp: engine_snoc addIndex_def alt_addIndex_def)
qed

lemma mdao_state_engine [simp]: "mdao_state (engine props) = Null"
  by (simp add: engine_fields)

lemma mdao_index_engine:
  "mdao_index (engine props) \<noteq> []" "d \<in> set (mdao_index (engine props)) \<Longrightarrow> wf_index d"
  "length (mdao_index (engine props)) = Suc (length props)"
  using engine_fields [of props] by blast+

lemma inv_engine: "inv G (engine props)"
  by (simp add: inv_def slot_records_def stored_def mdao_index_engine)

lemma stored_engine [simp]: "stored (engine props) = []"
  by (simp add: slot_records_def stored_def)

lemma run_snoc: "run G (ops @ [x]) m = apply_op G (run G ops m) x"
  by (simp add: run_def)

lemma inv_apply_op: "inv G m \<Longrightarrow> inv G (apply_op G m x)"
proof (cases x)
  case (Put r)
  assume "inv G m"
  then show ?thesis using Put inv_put(1) [of G m r] by simp
next
  case (Remove ro)
  assume i: "inv G m"
  show ?thesis
  proof (cases ro)
    case None
    then show ?thesis using Remove i by (simp add: mdao_remove_def)
  next
    case (Some r)
    then show ?thesis using Remove inv_remove(1) [OF i, of r] by simp
  qed
next
  case (RemoveAll skip limit order predicate)
  assume "inv G m"
  then show ?thesis using RemoveAll by (simp add: inv_removeAll)
qed

lemma inv_run: "inv G m \<Longrightarrow> inv G (run G ops m)"
  by (induction ops rule: rev_induct) (simp_all add: run_def inv_apply_op)

section \<open>Find after a history of writes\<close>

lemma option_eq_iff_Some: "(\<And>x. a = Some x \<longleftrightarrow> b = Some x) \<Longrightarrow> a = b"
  by (cases a; cases b) auto

lemma find_after_put:
  assumes dy: "distinct (map f ys)" and dx: "distinct (map f xs)"
    and m: "mset ys = add_mset r (filter_mset (\<lambda>y. f y \<noteq> f r) (mset xs))"
  shows "List.find (\<lambda>x. f x = key) ys =
         (if f r = key then Some r else List.find (\<lambda>x. f x = key) xs)"
proof (rule option_eq_iff_Some)
  fix x
  have "x \<in> set ys \<longleftrightarrow> x = r \<or> (x \<in> set xs \<and> f x \<noteq> f r)"
  proof -
    have "x \<in> set ys \<longleftrightarrow> x \<in># mset ys" by simp
    also have "\<dots> \<longleftrightarrow> x = r \<or> (x \<in> set xs \<and> f x \<noteq> f r)" unfolding m by auto
    finally show ?thesis .
  qed
  then show "List.find (\<lambda>x. f x = key) ys = Some x \<longleftrightarrow>
      (if f r = key then Some r else List.find (\<lambda>x. f x = key) xs) = Some x"
    using find_key_Some_iff [OF dy, of key x] find_key_Some_iff [OF dx, of key x] by auto
qed

lemma find_after_remove:
  assumes dy: "distinct (map f ys)" and dx: "distinct (map f xs)"
    and m: "mset ys = filter_mset (\<lambda>y. f y \<noteq> k) (mset xs)"
  shows "List.find (\<lambda>x. f x = key) ys =
         (if k = key then None else List.find (\<lambda>x. f x = key) xs)"
proof (rule option_eq_iff_Some)
  fix x
  have "x \<in> set ys \<longleftrightarrow> x \<in> set xs \<and> f x \<noteq> k"
  proof -
    have "x \<in> set ys \<longleftrightarrow> x \<in># mset ys" by simp
    also have "\<dots> \<longleftrightarrow> x \<in> set xs \<and> f x \<noteq> k" unfolding m by auto
    finally show ?thesis .
  qed
  then show "List.find (\<lambda>x. f x = key) ys = Some x \<longleftrightarrow>
      (if k = key then None else List.find (\<lambda>x. f x = key) xs) = Some x"
    using find_key_Some_iff [OF dy, of key x] find_key_Some_iff [OF dx, of key x] by auto
qed

lemma find_apply_op:
  assumes i: "inv G m"
  shows "List.find (\<lambda>x. G primaryKey x = key) (stored (apply_op G m x)) =
     (case x of
        Put r \<Rightarrow> if G primaryKey r = key then Some r
                  else List.find (\<lambda>x. G primaryKey x = key) (stored m)
      | Remove None \<Rightarrow> List.find (\<lambda>x. G primaryKey x = key) (stored m)
      | Remove (Some r) \<Rightarrow> if G primaryKey r = key then None
                  else List.find (\<lambda>x. G primaryKey x = key) (stored m)
      | RemoveAll skip limit order predicate \<Rightarrow> None)"
proof (cases x)
  case (Put r)
  have "inv G (snd (mdao_put G m r))" using i by (rule inv_put(1))
  then have dy: "distinct (map (G primaryKey) (stored (snd (mdao_put G m r))))"
    by (rule inv_stored_distinct)
  show ?thesis
    using Put find_after_put [OF dy inv_stored_distinct [OF i] inv_put(2) [OF i], of key] by simp
next
  case (Remove ro)
  show ?thesis
  proof (cases ro)
    case None
    then show ?thesis using Remove by (simp add: mdao_remove_def)
  next
    case (Some r)
    have "inv G (snd (mdao_remove G m (Some r)))" using i by (rule inv_remove(1))
    then have dy: "distinct (map (G primaryKey) (stored (snd (mdao_remove G m (Some r)))))"
      by (rule inv_stored_distinct)
    show ?thesis
      using Remove Some find_after_remove [OF dy inv_stored_distinct [OF i] inv_remove(2) [OF i], of key]
      by simp
  qed
next
  case (RemoveAll skip limit order predicate)
  then show ?thesis by simp
qed

lemma find_stored_run:
  "List.find (\<lambda>x. G primaryKey x = key) (stored (run G ops (engine props))) = latest G key ops"
proof (induction ops rule: rev_induct)
  case Nil
  then show ?case by (simp add: run_def latest_def)
next
  case (snoc x ops)
  have i: "inv G (run G ops (engine props))" using inv_engine by (rule inv_run)
  show ?case
  proof (cases x)
    case (Put r)
    then show ?thesis using find_apply_op [OF i, of key x] snoc.IH by (simp add: run_snoc latest_def)
  next
    case (Remove ro)
    then show ?thesis using find_apply_op [OF i, of key x] snoc.IH
      by (cases ro) (simp_all add: run_snoc latest_def)
  next
    case (RemoveAll skip limit order predicate)
    then show ?thesis using find_apply_op [OF i, of key x] by (simp add: run_snoc latest_def)
  qed
qed

lemma mdao_find_run:
  "mdao_find G (run G ops (engine props)) (Some (RawKey key)) = latest G key ops \<and>
   mdao_find G (run G ops (engine props)) (Some (Instance x)) = latest G (G primaryKey x) ops"
proof -
  have i: "inv G (run G ops (engine props))" using inv_engine by (rule inv_run)
  show ?thesis by (simp add: inv_find_key [OF i] inv_find_instance [OF i] find_stored_run)
qed

text \<open>
  Claim C1. For every history of put and remove operations (and removeAll) on a newly
  built engine, whatever alternatives were registered for it, \<^verbatim>\<open>find\<close> of a key, or of a
  record with that key, returns the most recently put record whose primary key is the
  key, and nothing if the key was never put or its record was removed afterwards.
\<close>

theorem find_returns_latest_put:
  "mdao_find G (run G ops (engine props)) (Some (RawKey key)) = latest G key ops \<and>
   mdao_find G (run G ops (engine props)) (Some (Instance x)) = latest G (G primaryKey x) ops"
proof -
  let ?m = "run G ops (engine props)"
  have i: "inv G ?m" using inv_engine by (rule inv_run)
  have "mdao_find G ?m (Some (RawKey key)) = List.find (\<lambda>r. G primaryKey r = key) (stored ?m)"
    using i by (rule inv_find_key)
  then have 1: "mdao_find G ?m (Some (RawKey key)) = latest G key ops"
    by (simp add: find_stored_run)
  have "mdao_find G ?m (Some (Instance x)) =
      List.find (\<lambda>r. G primaryKey r = G primaryKey x) (stored ?m)"
    using i by (rule inv_find_instance)
  then have 2: "mdao_find G ?m (Some (Instance x)) = latest G (G primaryKey x) ops"
    by (simp add: find_stored_run)
  show ?thesis using 1 2 by simp
qed

section \<open>The null argument, removeAll and absent keys\<close>

text \<open>
  Claim C10. \<^verbatim>\<open>find\<close> and \<^verbatim>\<open>remove\<close> called with \<^verbatim>\<open>null\<close> return \<^verbatim>\<open>null\<close> at once: the
  result does not depend on the alternatives or on the state token, and \<^verbatim>\<open>remove\<close> leaves
  the engine as it was.
\<close>

theorem null_argument_returns_null:
  "mdao_find G m None = None \<and> mdao_remove G m None = (None, m)"
proof
  show "mdao_find G m None = None" by (simp add: mdao_find_def)
  show "mdao_remove G m None = (None, m)" by (simp add: mdao_remove_def)
qed

lemma mdao_index_apply_op [simp]: "mdao_index (apply_op G m x) = mdao_index m"
proof (cases x)
  case (Put r)
  then show ?thesis by (simp add: mdao_put_def Let_def split: option.splits)
next
  case (Remove ro)
  then show ?thesis by (simp add: mdao_remove_def Let_def split: option.splits)
next
  case (RemoveAll skip limit order predicate)
  then show ?thesis by (simp add: mdao_removeAll_def)
qed

lemma mdao_index_run [simp]: "mdao_index (run G ops m) = mdao_index m"
  by (induction ops rule: rev_induct) (simp_all add: run_def)

lemma alt_planFind_cases:
  "alt_planFind ds st key = NoFindPlan \<or>
   (\<exists>i < length ds. alt_planFind ds st key = AltFindPlan i (index_planFind (ds ! i) (slot st i) key))"
proof -
  define cands where
    "cands = map (\<lambda>ds'. index_planFind (fst ds') (snd ds') key) (zip ds (slot_states ds st))"
  define costs where "costs = map (\<lambda>p. case find_cost p of Some c \<Rightarrow> c | None \<Rightarrow> 0) cands"
  have a: "alt_planFind ds st key =
      (case first_min costs of None \<Rightarrow> NoFindPlan | Some i \<Rightarrow> AltFindPlan i (cands ! i))"
    by (simp only: alt_planFind_def Let_def cands_def costs_def)
  show ?thesis
  proof (cases "first_min costs")
    case None
    then show ?thesis using a by simp
  next
    case (Some i)
    then have "i < length ds" using first_min_less [OF Some] by (simp add: costs_def cands_def)
    moreover from this have "cands ! i = index_planFind (ds ! i) (slot st i) key"
      by (simp add: cands_def)
    ultimately show ?thesis using a Some by auto
  qed
qed

lemma index_find_Null [simp]: "index_find d Null key = None"
  by (cases d) simp_all

lemma plan_find_Null_state:
  "plan_find (alt_planFind ds (Null :: 'r istate) key) (Null :: 'r istate) key = None"
  using alt_planFind_cases [of ds "Null :: 'r istate" key]
  by (auto simp: plan_find_index_planFind)

lemma lookup_Null_state: "mdao_state m = Null \<Longrightarrow> lookup G m ob = None"
  by (cases ob) (simp_all add: lookup_def plan_find_Null_state)

lemma mdao_put_Null_state:
  "mdao_state m = Null \<Longrightarrow>
   mdao_put G m r = (r, m\<lparr>mdao_state := alt_put G (mdao_index m) Null r\<rparr>)"
  by (simp add: mdao_put_def mdao_find_def maybeClone_def lookup_Null_state)

text \<open>
  Claim C9. \<^verbatim>\<open>removeAll\<close> changes the state token only: the registered alternatives,
  also one added by \<^verbatim>\<open>addIndex\<close>, are the same after it and after any later writes, and
  a put after it writes the record into the slot of every registered alternative.
\<close>

theorem removeAll_keeps_alternatives:
  "mdao_index (mdao_removeAll m skip limit order predicate) = mdao_index m \<and>
   mdao_index (mdao_removeAll (addIndex prop m) skip limit order predicate) =
     mdao_index m @ [new_TreeIndex prop] \<and>
   mdao_index (run G ops (mdao_removeAll m skip limit order predicate)) = mdao_index m \<and>
   (\<forall>i < length (mdao_index m).
      slot (mdao_state (snd (mdao_put G (mdao_removeAll m skip limit order predicate) r))) i =
      index_put G (mdao_index m ! i) Null r)"
proof -
  let ?m = "mdao_removeAll m skip limit order predicate"
  have s: "mdao_state ?m = Null" and i: "mdao_index ?m = mdao_index m"
    by (simp_all add: mdao_removeAll_def)
  have "slot (mdao_state (snd (mdao_put G ?m r))) j = index_put G (mdao_index m ! j) Null r"
    if "j < length (mdao_index m)" for j
    using that mdao_put_Null_state [OF s, of G r] i by (simp add: slot_alt_put)
  then show ?thesis
    by (simp add: i) (simp add: mdao_removeAll_def addIndex_def alt_addIndex_def)
qed


lemma alt_planSelect_cases:
  "alt_planSelect ds st sink skip limit order q = EmptyPlan \<or>
   (\<exists>i < length ds. alt_planSelect ds st sink skip limit order q =
      AltPlan i (index_planSelect (ds ! i) (slot st i) sink skip limit order q))"
proof -
  define cands where
    "cands = map (\<lambda>ds'. index_planSelect (fst ds') (snd ds') sink skip limit order q)
       (zip ds (slot_states ds st))"
  have a: "alt_planSelect ds st sink skip limit order q =
      (case first_min (map plan_cost cands) of None \<Rightarrow> EmptyPlan | Some i \<Rightarrow> AltPlan i (cands ! i))"
    by (simp only: alt_planSelect_def Let_def cands_def)
  show ?thesis
  proof (cases "first_min (map plan_cost cands)")
    case None
    then show ?thesis using a by simp
  next
    case (Some i)
    then have "i < length ds" using first_min_less [OF Some] by (simp add: cands_def)
    moreover from this have "cands ! i = index_planSelect (ds ! i) (slot st i) sink skip limit order q"
      by (simp add: cands_def)
    ultimately show ?thesis using a Some by auto
  qed
qed

lemma index_planSelect_Null [simp]:
  "index_planSelect d Null sink skip limit order q = EmptyPlan"
  by (cases d) simp_all

lemma plan_select_Null_state:
  "plan_select G (alt_planSelect ds (Null :: 'r istate) sink' skip' limit' order' q')
     (Null :: 'r istate) sink skip limit order q = sink"
  using alt_planSelect_cases [of ds "Null :: 'r istate" sink' skip' limit' order' q']
  by auto

lemma or_buffer_Null_state:
  "or_buffer G (map (\<lambda>arg. alt_planSelect ds (Null :: 'r istate) sink' skip' limit' order' (Some arg)) args)
     args (Null :: 'r istate) = []"
  by (induction args) (simp_all add: plan_select_Null_state)

lemma apply_order_Nil [simp]: "apply_order G order [] = []"
  by (simp add: apply_order_def split: option.splits comparator.splits)

lemma take_limit_Nil [simp]: "take_limit limit [] = []"
  by (cases limit) (simp_all add: take_limit_def)

lemma deliver_Nil [simp]: "deliver G skip limit order q [] = []"
  by (simp add: deliver_def)

lemma mdao_select_Null_state:
  "mdao_state m = Null \<Longrightarrow> mdao_select G m sink skip limit order predicate = sink"
proof -
  assume n: "mdao_state m = Null"
  show ?thesis
  proof (cases predicate)
    case None
    then show ?thesis using n by (simp add: mdao_select_def select_with_def select_plan_def plan_select_Null_state)
  next
    case (Some q)
    show ?thesis
    proof (cases "partialEval q")
      case (Or args)
      then show ?thesis using n Some
        by (simp add: mdao_select_def select_with_def select_plan_def or_buffer_Null_state)
    qed (use n Some in \<open>simp_all add: mdao_select_def select_with_def select_plan_def plan_select_Null_state\<close>)
  qed
qed

text \<open>
  Claim C3. \<^verbatim>\<open>removeAll\<close> discards the whole state token whatever its skip, limit,
  order and predicate are (it yields the same engine for any two choices of them);
  afterwards every \<^verbatim>\<open>select\<close> delivers nothing to its sink and \<^verbatim>\<open>find\<close> returns nothing
  for every key and every record.
\<close>

theorem removeAll_discards_everything:
  "mdao_state (mdao_removeAll m skip limit order predicate) = Null \<and>
   mdao_removeAll m skip limit order predicate = mdao_removeAll m skip' limit' order' predicate' \<and>
   mdao_select G (mdao_removeAll m skip limit order predicate) sink skip2 limit2 order2 predicate2 = sink \<and>
   mdao_select G (mdao_removeAll m skip limit order predicate) [] skip2 limit2 order2 predicate2 = [] \<and>
   mdao_find G (mdao_removeAll m skip limit order predicate) ob = None"
proof -
  let ?m = "mdao_removeAll m skip limit order predicate"
  have n: "mdao_state ?m = Null" by (simp add: mdao_removeAll_def)
  have f: "mdao_find G ?m ob = None"
    by (cases ob) (simp_all add: mdao_find_def maybeClone_def lookup_Null_state [OF n])
  show ?thesis using n f by (simp add: mdao_select_Null_state) (simp add: mdao_removeAll_def)
qed

text \<open>
  Claim C8. For a key that a history of writes leaves absent, \<^verbatim>\<open>find\<close> of the key and
  of a record with that key returns the absent result, and \<^verbatim>\<open>remove\<close> of such a record
  returns the absent result and leaves the engine unchanged. The operations are total:
  no branch of them raises a failure.
\<close>

theorem absent_key_is_not_a_failure:
  "latest G key ops = None \<Longrightarrow> G primaryKey r = key \<Longrightarrow>
   mdao_find G (run G ops (engine props)) (Some (RawKey key)) = None \<and>
   mdao_find G (run G ops (engine props)) (Some (Instance r)) = None \<and>
   mdao_remove G (run G ops (engine props)) (Some r) = (None, run G ops (engine props))"
proof -
  assume a: "latest G key ops = None" and k: "G primaryKey r = key"
  have "mdao_find G (run G ops (engine props)) (Some (Instance r)) = None"
    using a k by (simp add: mdao_find_run)
  moreover from this have "mdao_remove G (run G ops (engine props)) (Some r) = (None, run G ops (engine props))"
    by (simp add: mdao_remove_def)
  ultimately show ?thesis using a by (simp add: mdao_find_run)
qed

section \<open>Put replaces the record of its key\<close>

lemma filter_key_single:
  assumes m: "mset xs = add_mset r (filter_mset (\<lambda>y. f y \<noteq> f r) A)"
  shows "filter (\<lambda>x. f x = f r) xs = [r]"
proof -
  have "mset (filter (\<lambda>x. f x = f r) xs) = filter_mset (\<lambda>x. f x = f r) (mset xs)" by simp
  also have "\<dots> = {#r#}" unfolding m by (simp add: filter_filter_mset)
  finally have "mset (filter (\<lambda>x. f x = f r) xs) = {#r#}" .
  then show ?thesis by (simp only: mset_single_iff)
qed

text \<open>
  Claim C6. \<^verbatim>\<open>put\<close> of a record looks the record's primary key up, removes the record
  found from the index if there is one, inserts the new record and returns it. After
  the put every alternative holds exactly one record with that key, the new one, so no
  entry of the old record is left under a secondary key, and find returns the new
  record.
\<close>

theorem put_replaces_old_record:
  "inv G m \<Longrightarrow>
   fst (mdao_put G m r) = r \<and>
   snd (mdao_put G m r) =
     m\<lparr>mdao_state :=
         alt_put G (mdao_index m)
           (case mdao_find G m (Some (Instance r)) of
              None \<Rightarrow> mdao_state m
            | Some old \<Rightarrow> alt_remove G (mdao_index m) (mdao_state m) old) r\<rparr> \<and>
   (\<forall>i < length (mdao_index m).
      filter (\<lambda>x. G primaryKey x = G primaryKey r) (slot_records (snd (mdao_put G m r)) i) = [r]) \<and>
   mdao_find G (snd (mdao_put G m r)) (Some (Instance r)) = Some r"
proof -
  assume i: "inv G m"
  let ?m' = "snd (mdao_put G m r)"
  have i': "inv G ?m'" using i by (rule inv_put(1))
  have s: "mset (stored ?m') =
      add_mset r (filter_mset (\<lambda>y. G primaryKey y \<noteq> G primaryKey r) (mset (stored m)))"
    using i by (rule inv_put(2))
  have ix: "mdao_index ?m' = mdao_index m"
    by (simp add: mdao_put_def Let_def split: option.splits)
  have 1: "fst (mdao_put G m r) = r" by (simp add: mdao_put_def Let_def)
  have 2: "?m' = m\<lparr>mdao_state :=
         alt_put G (mdao_index m)
           (case mdao_find G m (Some (Instance r)) of
              None \<Rightarrow> mdao_state m
            | Some old \<Rightarrow> alt_remove G (mdao_index m) (mdao_state m) old) r\<rparr>"
    by (simp add: mdao_put_def Let_def split: option.splits)
  have 3: "filter (\<lambda>x. G primaryKey x = G primaryKey r) (slot_records ?m' j) = [r]"
    if j: "j < length (mdao_index m)" for j
  proof -
    have "mset (slot_records ?m' j) = mset (stored ?m')" using i' j ix by (simp add: inv_def)
    then show ?thesis using s filter_key_single [of "slot_records ?m' j" r "G primaryKey"] by simp
  qed
  have "List.find (\<lambda>x. G primaryKey x = G primaryKey r) (stored ?m') = Some r"
    using find_key_Some_iff [OF inv_stored_distinct [OF i'], of "G primaryKey r" r] s
    by (metis mset_eq_setD list.set_intros(1) mset.simps(2) set_mset_mset union_single_eq_member)
  then have 4: "mdao_find G ?m' (Some (Instance r)) = Some r"
    using inv_find_instance [OF i'] by simp
  show ?thesis using 1 2 3 4 by blast
qed

section \<open>The example engine, evaluated\<close>

lemmas example_defs =
  rec1_def rec2_def rec3_def rec1'_def example_history_def get_def primaryKey_def

lemma engine_a:
  "(engine [''a''] :: 'r mdao) =
     \<lparr>mdao_index = [TreeIndex ''id'' ValueIndex, TreeIndex ''a'' (TreeIndex ''id'' ValueIndex)],
      mdao_state = Null\<rparr>"
  by (simp add: engine_def new_MDAO_def addIndex_def alt_addIndex_def new_TreeIndex_def primaryKey_def)

lemma example_engine_eq:
  "example_engine =
     \<lparr>mdao_index = [TreeIndex ''id'' ValueIndex, TreeIndex ''a'' (TreeIndex ''id'' ValueIndex)],
      mdao_state = Slots
        [Tree [(1, Leaf rec1), (2, Leaf rec2), (3, Leaf rec3)],
         Tree [(5, Tree [(1, Leaf rec1), (2, Leaf rec2)]), (7, Tree [(3, Leaf rec3)])]]\<rparr>"
  by (simp add: example_engine_def engine_a run_def example_defs mdao_put_def mdao_find_def
      lookup_def maybeClone_def alt_planFind_def alt_put_def alt_remove_def slot_states_def
      slot_def tree_def attach_def Let_def upt_rec)

lemma inv_example_engine: "inv get example_engine"
  unfolding example_engine_def using inv_engine by (rule inv_run)

text \<open>Claim C8 on the example engine: the key 4 was never put.\<close>

theorem absent_key_is_not_a_failure_witness:
  "latest get 4 example_history = None \<and> get primaryKey [(''id'', 4)] = 4 \<and>
   mdao_find get example_engine (Some (RawKey 4)) = None \<and>
   mdao_find get example_engine (Some (Instance [(''id'', 4)])) = None \<and>
   mdao_remove get example_engine (Some [(''id'', 4)]) = (None, example_engine)"
proof -
  have a: "latest get 4 example_history = None" by (simp add: latest_def example_defs)
  have k: "get primaryKey [(''id'', 4)] = 4" by (simp add: example_defs)
  show ?thesis
    using absent_key_is_not_a_failure [OF a k, of "[''a'']"] a k by (simp add: example_engine_def)
qed

text \<open>Claim C6 on the example engine: the record with key 1 is put again with another
  value of \<^verbatim>\<open>a\<close>; the alternative on \<^verbatim>\<open>a\<close> (slot 1) holds the new record only.\<close>

theorem put_replaces_old_record_witness:
  "inv get example_engine \<and> fst (mdao_put get example_engine rec1') = rec1' \<and>
   filter (\<lambda>x. get primaryKey x = get primaryKey rec1')
     (slot_records (snd (mdao_put get example_engine rec1')) 1) = [rec1'] \<and>
   mdao_find get (snd (mdao_put get example_engine rec1')) (Some (Instance rec1')) = Some rec1'"
proof -
  have l: "1 < length (mdao_index example_engine)" by (simp add: example_engine_eq)
  show ?thesis
    using put_replaces_old_record [OF inv_example_engine, of rec1'] l inv_example_engine by blast
qed

text \<open>Claim C9 on the example engine: after \<^verbatim>\<open>removeAll\<close> a put writes into the slot of
  the alternative on \<^verbatim>\<open>a\<close>.\<close>

theorem removeAll_keeps_alternatives_witness:
  "mdao_index (mdao_removeAll example_engine 0 0 None None) =
     [TreeIndex ''id'' ValueIndex, TreeIndex ''a'' (TreeIndex ''id'' ValueIndex)] \<and>
   slot (mdao_state (snd (mdao_put get (mdao_removeAll example_engine 0 0 None None) rec1))) 1 =
     Tree [(5, Tree [(1, Leaf rec1)])]"
proof -
  have l: "1 < length (mdao_index example_engine)" by (simp add: example_engine_eq)
  have e: "index_put get (mdao_index example_engine ! 1) Null rec1 = Tree [(5, Tree [(1, Leaf rec1)])]"
    by (simp add: example_engine_eq example_defs tree_def attach_def)
  show ?thesis
    using removeAll_keeps_alternatives [of example_engine 0 0 None None "''b''" get "[]" rec1] l e
    by (simp add: example_engine_eq)
qed

section \<open>Select: predicates, scans and plans\<close>

lemma holds_conjuncts: "list_all (\<lambda>q. holds G q r) (conjuncts q) = holds G q r"
  by (cases q) simp_all

lemma holds_collapse:
  "holds G (case qs of [q] \<Rightarrow> q | qs' \<Rightarrow> And qs') r = list_all (\<lambda>q. holds G q r) qs"
  by (auto split: list.splits)

lemma holds_partialEval: "holds G (partialEval q) r = holds G q r"
proof (induction q rule: partialEval.induct)
  case (1 qs)
  have "holds G (partialEval (And qs)) r =
      list_all (\<lambda>q. holds G q r) (concat (map (\<lambda>q. conjuncts (partialEval q)) qs))"
    by (simp only: partialEval.simps holds_collapse)
  also have "\<dots> = list_all (\<lambda>q. list_all (\<lambda>q'. holds G q' r) (conjuncts (partialEval q))) qs"
    by (induction qs) simp_all
  also have "\<dots> = list_all (\<lambda>q. holds G (partialEval q) r) qs"
    by (simp add: holds_conjuncts)
  also have "\<dots> = list_all (\<lambda>q. holds G q r) qs"
    using "1.IH" by (simp add: list_all_iff)
  finally show ?case by simp
next
  case (2 qs)
  then show ?case by (simp add: list_ex_iff)
qed simp_all

lemma holds_opt_partialEval:
  "holds_opt G (case po of None \<Rightarrow> None | Some q \<Rightarrow> Some (partialEval q)) r = holds_opt G po r"
  by (cases po) (simp_all add: holds_opt_def holds_partialEval)









lemma mset_apply_order [simp]: "mset (apply_order G order xs) = mset xs"
  by (simp add: apply_order_def split: option.splits comparator.splits)

lemma take_limit_infinity [simp]: "take_limit \<infinity> xs = xs"
  by (simp add: take_limit_def)



lemma holds_opt_None [simp]: "holds_opt G None r"
  by (simp add: holds_opt_def)




lemma or_buffer_concat:
  "or_buffer G (map f args) args st =
   concat (map (\<lambda>arg. plan_select G (f arg) st [] 0 MAX_SAFE_INTEGER None (Some arg)) args)"
  by (induction args) simp_all


section \<open>Select: the result of the facade\<close>




lemma select_plan_Or:
  assumes "partialEval P = Or args"
  shows "select_plan planSelect st sink skip limit order (Some P) =
           OrPlan (Or args)
             (map (\<lambda>arg. planSelect st [] 0 MAX_SAFE_INTEGER None (Some arg)) args)"
  using assms by (simp add: select_plan_def)

lemma mdao_select_Or:
  assumes "partialEval P = Or args"
  shows "mdao_select G m sink skip limit order (Some P) =
           sink @ deliver G skip limit order None
             (or_buffer G
               (map (\<lambda>arg. alt_planSelect (mdao_index m) (mdao_state m) [] 0 MAX_SAFE_INTEGER None (Some arg)) args)
               args (mdao_state m))"
  using assms by (simp add: mdao_select_def select_with_def select_plan_def)





lemma select_with_Or:
  assumes "partialEval P = Or args"
  shows "select_with planSelect planExec st sink skip limit order (Some P) =
           planExec
             (OrPlan (Or args) (map (\<lambda>arg. planSelect st [] 0 MAX_SAFE_INTEGER None (Some arg)) args))
             st sink skip limit order (Some (Or args))"
  using assms by (simp add: select_with_def select_plan_def)

text \<open>
  Claim C4. When the simplified predicate of a \<^verbatim>\<open>select\<close> is a disjunction of \<open>n\<close>
  arguments, the plan is an \<^verbatim>\<open>OrPlan\<close> of exactly \<open>n\<close> sub-plans, one per argument in order.
  Whatever the planning method of the index is, the sub-plan of an argument is what the
  method returns for the request with a new empty sink, skip 0, the unbounded limit, no
  order and that argument, so the plan is the same for any two choices of the caller's
  sink, skip, limit and order. Whatever the execution method of the plans is, the
  caller's sink, skip, limit and order are handed to the execution of the \<^verbatim>\<open>OrPlan\<close> only.
  In the engine the caller's order, skip and limit are applied once, to the
  concatenation of what the sub-plans deliver when each is run with skip 0, no limit and
  no order.
\<close>

theorem or_select_plans_each_disjunct:
  "partialEval P = Or args \<Longrightarrow>
   select_plan planSelect st sink skip limit order (Some P) =
     OrPlan (Or args) (map (\<lambda>arg. planSelect st [] 0 MAX_SAFE_INTEGER None (Some arg)) args) \<and>
   (\<exists>ps. select_plan planSelect st sink skip limit order (Some P) = OrPlan (Or args) ps \<and>
      length ps = length args) \<and>
   select_plan planSelect st sink skip limit order (Some P) =
     select_plan planSelect st sink' skip' limit' order' (Some P) \<and>
   select_with planSelect planExec st sink skip limit order (Some P) =
     planExec
       (OrPlan (Or args) (map (\<lambda>arg. planSelect st [] 0 MAX_SAFE_INTEGER None (Some arg)) args))
       st sink skip limit order (Some (Or args)) \<and>
   mdao_select G m sink skip limit order (Some P) =
     sink @ take_limit limit (drop skip (apply_order G order
       (concat (map (\<lambda>arg.
          plan_select G
            (alt_planSelect (mdao_index m) (mdao_state m) [] 0 MAX_SAFE_INTEGER None (Some arg))
            (mdao_state m) [] 0 MAX_SAFE_INTEGER None (Some arg)) args))))"
proof -
  assume a: "partialEval P = Or args"
  have 1: "select_plan planSelect st sink skip limit order (Some P) =
      OrPlan (Or args) (map (\<lambda>arg. planSelect st [] 0 MAX_SAFE_INTEGER None (Some arg)) args)"
    using a by (rule select_plan_Or)
  have 2: "\<exists>ps. select_plan planSelect st sink skip limit order (Some P) = OrPlan (Or args) ps \<and>
      length ps = length args"
    using 1 by simp
  have 3: "select_plan planSelect st sink skip limit order (Some P) =
      select_plan planSelect st sink' skip' limit' order' (Some P)"
    using a by (simp add: select_plan_Or)
  have 4: "select_with planSelect planExec st sink skip limit order (Some P) =
     planExec
       (OrPlan (Or args) (map (\<lambda>arg. planSelect st [] 0 MAX_SAFE_INTEGER None (Some arg)) args))
       st sink skip limit order (Some (Or args))"
    using a by (rule select_with_Or)
  have "filter (holds_opt G None) xs = xs" for xs :: "'a list" by simp
  then have 5: "mdao_select G m sink skip limit order (Some P) =
     sink @ take_limit limit (drop skip (apply_order G order
       (concat (map (\<lambda>arg.
          plan_select G
            (alt_planSelect (mdao_index m) (mdao_state m) [] 0 MAX_SAFE_INTEGER None (Some arg))
            (mdao_state m) [] 0 MAX_SAFE_INTEGER None (Some arg)) args))))"
    using mdao_select_Or [OF a, of G m sink skip limit order]
    by (simp add: or_buffer_concat deliver_def)
  show ?thesis using 1 2 3 4 5 by blast
qed








lemma select_or_desc:
  "mdao_select get example_engine [] 1 (enat 2) (Some (Desc ''id''))
     (Some (And [Or [Eq ''a'' 5, Gt ''id'' 1]])) = [rec2, rec2]"
  by code_simp

text \<open>Claim C4 at a planning method that records the skip, the limit, the order and the
  sink of a request in the plan it returns (the cost is 1000 for any request but the
  one with an empty sink, skip 0, no limit and no order): for the caller's sink of one
  record, skip 1, limit 2 and descending order, both sub-plans are those of the request
  with the empty sink, skip 0, no limit and no order. And on the example engine: the
  caller's skip 1, limit 2 and descending order are applied to the four records of the
  buffer.\<close>

theorem or_select_plans_each_disjunct_witness:
  "partialEval (And [Or [Eq ''a'' 5, Gt ''id'' 1]]) = Or [Eq ''a'' 5, Gt ''id'' 1] \<and>
   select_plan
     (\<lambda>st sink skip limit order q.
        ScanPlan (if sink = [] \<and> skip = 0 \<and> limit = \<infinity> \<and> order = None then 0 else 1000) AllKeys)
     (Null :: fobject istate) [rec3] 1 (enat 2) (Some (Desc ''id''))
     (Some (And [Or [Eq ''a'' 5, Gt ''id'' 1]])) =
     OrPlan (Or [Eq ''a'' 5, Gt ''id'' 1]) [ScanPlan 0 AllKeys, ScanPlan 0 AllKeys] \<and>
   mdao_select get example_engine [] 1 (enat 2) (Some (Desc ''id''))
     (Some (And [Or [Eq ''a'' 5, Gt ''id'' 1]])) = [rec2, rec2] \<and>
   [rec2, rec2] =
     take_limit (enat 2) (drop 1 (apply_order get (Some (Desc ''id'')) [rec1, rec2, rec2, rec3]))"
proof -
  have p: "partialEval (And [Or [Eq ''a'' 5, Gt ''id'' 1]]) = Or [Eq ''a'' 5, Gt ''id'' 1]" by simp
  note t = or_select_plans_each_disjunct [OF p,
      of "\<lambda>st sink skip limit order q.
        ScanPlan (if sink = [] \<and> skip = 0 \<and> limit = \<infinity> \<and> order = None then 0 else 1000) AllKeys"
        "Null :: fobject istate" "[rec3]" 1 "enat 2" "Some (Desc ''id'')" "[]" 0 \<infinity> None
        "plan_select get" get example_engine]
  have 1: "select_plan
     (\<lambda>st sink skip limit order q.
        ScanPlan (if sink = [] \<and> skip = 0 \<and> limit = \<infinity> \<and> order = None then 0 else 1000) AllKeys)
     (Null :: fobject istate) [rec3] 1 (enat 2) (Some (Desc ''id''))
     (Some (And [Or [Eq ''a'' 5, Gt ''id'' 1]])) =
     OrPlan (Or [Eq ''a'' 5, Gt ''id'' 1]) [ScanPlan 0 AllKeys, ScanPlan 0 AllKeys]"
    using t by (simp add: MAX_SAFE_INTEGER_def)
  have 2: "[rec2, rec2] =
     take_limit (enat 2) (drop 1 (apply_order get (Some (Desc ''id'')) [rec1, rec2, rec2, rec3]))"
    by code_simp
  show ?thesis using p 1 2 select_or_desc by simp
qed

lemma select_or_all:
  "mdao_select get example_engine [] 0 MAX_SAFE_INTEGER None (Some (Or [Eq ''a'' 5, Gt ''id'' 1])) =
     [rec1, rec2, rec2, rec3]"
  by code_simp



section \<open>Find returns a copy\<close>









end
